theory Spec2Isabelle
  imports Main "HOL-Library.AList"
begin

section \<open>The transfer engine of the data-transfer package\<close>

text \<open>
  A shallow embedding of the class \<open>TransferEngine\<close> (the TypeScript part of
  \<open>services/jwt.js\<close>, lines 63 to 420). JavaScript strings are modelled as \<open>string\<close>
  (lists of 8-bit characters), JavaScript numbers that count items and characters as
  \<open>nat\<close> (the counters stay exact below \<open>2 ^ 53\<close>). What a synchronous function
  throws is the left summand of \<open>error + 'a\<close>; a promise resolves, rejects, or never
  settles (\<open>'a outcome\<close> below).
\<close>

subsection \<open>Errors\<close>

text \<open>\<open>new Error(message)\<close>, and the \<open>TypeError\<close> the runtime raises on a property
  read of \<open>undefined\<close>.\<close>

datatype error = Error string | TypeError string

subsection \<open>Stages and options\<close>

text \<open>\<open>TransferStage\<close>: the five string literals of the type, and the literal itself.\<close>

datatype TransferStage = Schemas | Entities | Links | Media | Configuration

fun stage_name :: "TransferStage \<Rightarrow> string" where
  "stage_name Schemas = ''schemas''"
| "stage_name Entities = ''entities''"
| "stage_name Links = ''links''"
| "stage_name Media = ''media''"
| "stage_name Configuration = ''configuration''"

text \<open>\<open>options.versionMatching\<close>: one of the five strategies.\<close>

datatype versionMatching = Ignore | Exact | Major | Minor | Patch

fun strategy_name :: "versionMatching \<Rightarrow> string" where
  "strategy_name Ignore = ''ignore''"
| "strategy_name Exact = ''exact''"
| "strategy_name Major = ''major''"
| "strategy_name Minor = ''minor''"
| "strategy_name Patch = ''patch''"

text \<open>\<open>ITransferEngineOptions\<close> as the command line builds it:
  \<open>{strategy, versionMatching, exclude}\<close>.\<close>

record ITransferEngineOptions =
  strategy :: string
  versionMatching :: versionMatching
  exclude :: "TransferStage list"

subsection \<open>The version check\<close>

text \<open>\<open>String.prototype.split\<close> with a one-character separator: the pieces between the
  separators, of which there is always at least one.\<close>

fun split :: "char \<Rightarrow> string \<Rightarrow> string list" where
  "split sep [] = [[]]"
| "split sep (c # cs) =
     (if c = sep then [] # split sep cs
      else (case split sep cs of
              [] \<Rightarrow> [[c]]
            | t # ts \<Rightarrow> (c # t) # ts))"

text \<open>\<open>sourceTokens.map((value, index) => value === destinationTokens[index])\<close>: one
  boolean per source token; a destination token that does not exist is \<open>undefined\<close> and
  equals no string.\<close>

fun token_matches :: "string list \<Rightarrow> string list \<Rightarrow> bool list" where
  "token_matches [] ds = []"
| "token_matches (s # ss) [] = False # token_matches ss []"
| "token_matches (s # ss) (d # ds) = (s = d) # token_matches ss ds"

text \<open>The array destructuring \<open>[major, minor, patch] = ...\<close>, read in a condition: a
  position past the end of the array is \<open>undefined\<close>, which is falsy.\<close>

definition truthy_at :: "bool list \<Rightarrow> nat \<Rightarrow> bool" where
  "truthy_at bs i = (i < length bs \<and> bs ! i)"

text \<open>\<open>!version\<close> for \<open>version?: string\<close>: \<open>undefined\<close> and the empty string are falsy.\<close>

fun falsy :: "string option \<Rightarrow> bool" where
  "falsy None = True"
| "falsy (Some v) = (v = [])"

definition version_text :: "string option \<Rightarrow> string" where
  "version_text v = (case v of None \<Rightarrow> ''undefined'' | Some s \<Rightarrow> s)"

definition mismatch_message :: "versionMatching \<Rightarrow> string \<Rightarrow> string \<Rightarrow> string" where
  "mismatch_message strat sourceVersion destinationVersion =
     ''Strapi versions doesn't match ('' @ strategy_name strat @ '' check): '' @ sourceVersion
       @ '' does not match with '' @ destinationVersion @ '' ''"

text \<open>\<open>assertStrapiVersionIntegrity\<close>: returns (\<open>Inr ()\<close>) or throws (\<open>Inl\<close>).\<close>

definition assertStrapiVersionIntegrity ::
  "versionMatching \<Rightarrow> string option \<Rightarrow> string option \<Rightarrow> error + unit" where
  "assertStrapiVersionIntegrity strat sourceVersion destinationVersion =
     (if falsy sourceVersion \<or> falsy destinationVersion then Inr ()
      else if strat = Ignore then Inr ()
      else if strat = Exact \<and> sourceVersion = destinationVersion then Inr ()
      else
        let sourceTokens = split CHR ''.'' (version_text sourceVersion);
            destinationTokens = split CHR ''.'' (version_text destinationVersion);
            ms = token_matches sourceTokens destinationTokens;
            major = truthy_at ms 0;
            minor = truthy_at ms 1;
            patch = truthy_at ms 2
        in if (strat = Major \<and> major) \<or>
              (strat = Minor \<and> major \<and> minor) \<or>
              (strat = Patch \<and> major \<and> minor \<and> patch)
           then Inr ()
           else Inl (Error (mismatch_message strat (version_text sourceVersion)
                              (version_text destinationVersion))))"

subsection \<open>Property paths of lodash\<close>

text \<open>
  The engine tests object membership with \<open>_.has(path, object)\<close> of \<open>lodash/fp\<close>, which
  reads a string as a property path: \<open>castPath\<close> keeps the string as one key when
  \<open>isKey\<close> holds (it is a plain word, has no path syntax, or is a property of the object)
  and parses it with \<open>stringToPath\<close> otherwise; \<open>hasPath\<close> then follows the keys through
  own properties. The two regular expressions of \<open>isKey\<close> and the one of \<open>stringToPath\<close>
  are written out as scanners.
\<close>

definition word_char :: "char \<Rightarrow> bool" where
  "word_char c = (c \<in> set ''abcdefghijklmnopqrstuvwxyzABCDEFGHIJKLMNOPQRSTUVWXYZ0123456789_'')"

definition digit_char :: "char \<Rightarrow> bool" where
  "digit_char c = (c \<in> set ''0123456789'')"

definition backslash :: char where
  "backslash = CHR 0x5C"

definition quote_char :: "char \<Rightarrow> bool" where
  "quote_char c = (c = CHR 0x22 \<or> c = CHR 0x27)"

text \<open>The characters a dot of a regular expression does not match.\<close>

definition line_terminator :: "char \<Rightarrow> bool" where
  "line_terminator c = (c = CHR 0x0A \<or> c = CHR 0x0D)"

text \<open>A character outside \<open>[.[\]]\<close>.\<close>

definition key_char :: "char \<Rightarrow> bool" where
  "key_char c = (c \<noteq> CHR ''.'' \<and> c \<noteq> CHR ''['' \<and> c \<noteq> CHR '']'')"

text \<open>\<open>reIsPlainProp = /^\w*$/\<close>.\<close>

definition isPlainProp :: "string \<Rightarrow> bool" where
  "isPlainProp s = list_all word_char s"

text \<open>The quoted alternative of both bracket expressions, read after the opening quote
  \<open>q\<close>: characters other than \<open>q\<close> and the backslash, or a backslash and one more
  character, up to the first \<open>q\<close>, which a \<open>]\<close> must follow. The result is the text
  between the quotes and what follows the bracket.\<close>

fun quoted_key :: "char \<Rightarrow> string \<Rightarrow> (string \<times> string) option" where
  "quoted_key q [] = None"
| "quoted_key q (c # cs) =
     (if c = q then
        (case cs of
           [] \<Rightarrow> None
         | d # rest \<Rightarrow> if d = CHR '']'' then Some ([], rest) else None)
      else if c = backslash then
        (case cs of
           [] \<Rightarrow> None
         | d # ds \<Rightarrow>
             if line_terminator d then None
             else map_option (\<lambda>(k, rest). (c # d # k, rest)) (quoted_key q ds))
      else map_option (\<lambda>(k, rest). (c # k, rest)) (quoted_key q cs))"

text \<open>\<open>reIsDeepProp = /\.|\[(?:[^[\]]*|(["'])(?:(?!\1)[^\\]|\\.)*?\1)\]/\<close>, searched
  anywhere in the string: a dot, or an opening bracket followed either by characters
  that are not brackets and a closing bracket, or by a quoted text and a closing
  bracket.\<close>

definition deep_group :: "string \<Rightarrow> bool" where
  "deep_group cs =
     ((case dropWhile (\<lambda>c. c \<noteq> CHR ''['' \<and> c \<noteq> CHR '']'') cs of
         [] \<Rightarrow> False
       | d # _ \<Rightarrow> d = CHR '']'') \<or>
      (case cs of
         [] \<Rightarrow> False
       | q # rest \<Rightarrow> quote_char q \<and> quoted_key q rest \<noteq> None))"

fun isDeepProp :: "string \<Rightarrow> bool" where
  "isDeepProp [] = False"
| "isDeepProp (c # cs) =
     (c = CHR ''.'' \<or> (c = CHR ''['' \<and> deep_group cs) \<or> isDeepProp cs)"

text \<open>The number alternative of \<open>rePropName\<close>, \<open>-?\d+(?:\.\d+)?\<close> and the closing
  bracket, read after the opening bracket.\<close>

definition number_key :: "string \<Rightarrow> (string \<times> string) option" where
  "number_key cs =
     (let sign = (case cs of [] \<Rightarrow> [] | c # _ \<Rightarrow> if c = CHR ''-'' then [c] else []);
          r1 = drop (length sign) cs;
          ds = takeWhile digit_char r1;
          r2 = dropWhile digit_char r1
      in if ds = [] then None
         else (case r2 of
                 [] \<Rightarrow> None
               | c # r3 \<Rightarrow>
                   if c = CHR '']'' then Some (sign @ ds, r3)
                   else if c = CHR ''.'' then
                     (let fs = takeWhile digit_char r3; r4 = dropWhile digit_char r3
                      in if fs = [] then None
                         else (case r4 of
                                 [] \<Rightarrow> None
                               | e # r5 \<Rightarrow>
                                   if e = CHR '']'' then Some (sign @ ds @ [c] @ fs, r5)
                                   else None))
                   else None))"

text \<open>\<open>subString.replace(reEscapeChar, '$1')\<close> with \<open>reEscapeChar = /\\(\\)?/g\<close>: a
  backslash goes, and of two backslashes one stays.\<close>

fun unescape :: "string \<Rightarrow> string" where
  "unescape [] = []"
| "unescape [c] = (if c = backslash then [] else [c])"
| "unescape (c # d # cs) =
     (if c = backslash then
        (if d = backslash then d # unescape cs else unescape (d # cs))
      else c # unescape (d # cs))"

text \<open>The bracket alternative of \<open>rePropName\<close>, read after the opening bracket: the key
  it pushes and the rest of the string.\<close>

definition bracket_key :: "string \<Rightarrow> (string \<times> string) option" where
  "bracket_key cs =
     (case number_key cs of
        Some r \<Rightarrow> Some r
      | None \<Rightarrow>
          (case cs of
             [] \<Rightarrow> None
           | q # rest \<Rightarrow>
               if quote_char q
               then map_option (\<lambda>(k, r). (unescape k, r)) (quoted_key q rest)
               else None))"

text \<open>The last alternative of \<open>rePropName\<close>, \<open>(?=(?:\.|\[\])(?:\.|\[\]|$))\<close>: an empty
  match in front of a dot or \<open>[]\<close> that is followed by a dot, by \<open>[]\<close> or by the end.\<close>

definition empty_key_next :: "string \<Rightarrow> bool" where
  "empty_key_next cs = (cs = [] \<or> take 1 cs = ''.'' \<or> take 2 cs = ''[]'')"

definition empty_key_here :: "string \<Rightarrow> bool" where
  "empty_key_here cs =
     ((take 1 cs = ''.'' \<and> empty_key_next (drop 1 cs)) \<or>
      (take 2 cs = ''[]'' \<and> empty_key_next (drop 2 cs)))"

lemma quoted_key_shorter: "quoted_key q cs = Some (k, rest) \<Longrightarrow> length rest < length cs"
proof (induction q cs arbitrary: k rule: quoted_key.induct)
  case (1 q)
  then show ?case by simp
next
  case (2 q c cs)
  then show ?case
    by (fastforce split: if_splits list.splits)
qed

lemma number_key_shorter: "number_key cs = Some (k, rest) \<Longrightarrow> length rest < length cs"
proof -
  have drop_le: "length (dropWhile P xs) \<le> length xs" for P and xs :: string
    by (simp add: length_dropWhile_le)
  assume a: "number_key cs = Some (k, rest)"
  define sign where "sign = (case cs of [] \<Rightarrow> [] | c # _ \<Rightarrow> if c = CHR ''-'' then [c] else [])"
  define r2 where "r2 = dropWhile digit_char (drop (length sign) cs)"
  have r2_le: "length r2 \<le> length cs"
    unfolding r2_def using drop_le [of digit_char "drop (length sign) cs"] by simp
  from a obtain c r3 where r2: "r2 = c # r3" and
    rest: "rest = r3 \<or> (\<exists>e. dropWhile digit_char r3 = e # rest)"
    unfolding number_key_def Let_def sign_def [symmetric] r2_def [symmetric]
    by (auto split: if_splits list.splits)
  from rest have "length rest \<le> length r3"
  proof
    assume "rest = r3"
    then show ?thesis by simp
  next
    assume "\<exists>e. dropWhile digit_char r3 = e # rest"
    then obtain e where "dropWhile digit_char r3 = e # rest" ..
    with drop_le [of digit_char r3] show ?thesis by simp
  qed
  with r2 r2_le show ?thesis by simp
qed

lemma bracket_key_shorter: "bracket_key cs = Some (k, rest) \<Longrightarrow> length rest < length cs"
  unfolding bracket_key_def
  by (auto split: option.splits list.splits if_splits
      dest: number_key_shorter quoted_key_shorter)

text \<open>\<open>string.replace(rePropName, ...)\<close>: the matches from left to right, each pushing
  its key; the search goes on behind a match, and one character further on behind an
  empty one.\<close>

function scan_keys :: "string \<Rightarrow> string list" where
  "scan_keys [] = []"
| "scan_keys (c # cs) =
     (if key_char c then
        (c # takeWhile key_char cs) # scan_keys (dropWhile key_char cs)
      else
        (case (if c = CHR ''['' then bracket_key cs else None) of
           Some (k, rest) \<Rightarrow> k # scan_keys rest
         | None \<Rightarrow>
             if empty_key_here (c # cs) then [] # scan_keys cs else scan_keys cs))"
  by pat_completeness auto
termination
  by (relation "measure length")
    (auto simp: le_imp_less_Suc length_dropWhile_le split: if_splits
      dest!: bracket_key_shorter)

definition stringToPath :: "string \<Rightarrow> string list" where
  "stringToPath s = (if take 1 s = ''.'' then [[]] else []) @ scan_keys s"

text \<open>The values \<open>_.has\<close> walks through: numbers, strings and objects with their own
  properties in insertion order.\<close>

datatype jsval = JNum nat | JStr string | JObj "(string \<times> jsval) list"

text \<open>The decimal numeral of an array index.\<close>

fun decimal :: "nat \<Rightarrow> string" where
  "decimal n =
     (if n < 10 then [''0123456789'' ! n]
      else decimal (n div 10) @ [''0123456789'' ! (n mod 10)])"

declare decimal.simps [simp del]

text \<open>\<open>hasOwnProperty\<close>: a number has no own property, a string has its indices and
  \<open>length\<close>, an object has what it was given.\<close>

fun own_props :: "jsval \<Rightarrow> (string \<times> jsval) list" where
  "own_props (JNum n) = []"
| "own_props (JStr s) =
     map (\<lambda>i. (decimal i, JStr [s ! i])) [0..<length s] @ [(''length'', JNum (length s))]"
| "own_props (JObj kvs) = kvs"

text \<open>\<open>hasPath(object, path, baseHas)\<close>: every key of the path is an own property of the
  value reached so far. (The final test for array indices fails on every value of
  \<open>jsval\<close>, none being an array.)\<close>

fun hasPath :: "string list \<Rightarrow> jsval \<Rightarrow> bool" where
  "hasPath [] v = False"
| "hasPath (k # ks) v =
     (case map_of (own_props v) k of
        None \<Rightarrow> False
      | Some v' \<Rightarrow> ks = [] \<or> hasPath ks v')"

text \<open>\<open>isKey(value, object)\<close> for a string: \<open>reIsPlainProp.test(value) ||
  !reIsDeepProp.test(value) || value in Object(object)\<close>. A string with path syntax is
  the name of no inherited property, so \<open>in\<close> looks at the own ones.\<close>

definition isKey :: "string \<Rightarrow> jsval \<Rightarrow> bool" where
  "isKey v obj = (isPlainProp v \<or> \<not> isDeepProp v \<or> map_of (own_props obj) v \<noteq> None)"

definition castPath :: "string \<Rightarrow> jsval \<Rightarrow> string list" where
  "castPath v obj = (if isKey v obj then [v] else stringToPath v)"

text \<open>\<open>_.has(path, object)\<close> of \<open>lodash/fp\<close>.\<close>

definition has :: "string \<Rightarrow> jsval \<Rightarrow> bool" where
  "has path obj = hasPath (castPath path obj) obj"

subsection \<open>The progress model\<close>

text \<open>\<open>{count, bytes}\<close>, and a stage's entry with its optional \<open>aggregates\<close> object, an
  association list from bucket key to counters in insertion order.\<close>

record counters =
  count :: nat
  bytes :: nat

record ProgressEntry = counters +
  aggregates :: "(string \<times> counters) list option"

type_synonym TransferProgress = "TransferStage \<Rightarrow> ProgressEntry option"

text \<open>An item that flows through a stage: an object, given by its own properties that
  hold strings, and the text \<open>JSON.stringify\<close> makes of it.\<close>

record item =
  props :: "(string \<times> string) list"
  json :: string

definition counters_val :: "counters \<Rightarrow> jsval" where
  "counters_val c = JObj [(''count'', JNum (count c)), (''bytes'', JNum (bytes c))]"

definition aggregates_val :: "(string \<times> counters) list \<Rightarrow> jsval" where
  "aggregates_val aggs = JObj (map (\<lambda>(k, c). (k, counters_val c)) aggs)"

definition item_val :: "item \<Rightarrow> jsval" where
  "item_val d = JObj (map (\<lambda>(k, v). (k, JStr v)) (props d))"

text \<open>\<open>data[aggregateKey]\<close> as a property key: the string stored there, or
  \<open>undefined\<close>, whose key is its name.\<close>

definition prop_key :: "item \<Rightarrow> string \<Rightarrow> string" where
  "prop_key d k = (case map_of (props d) k of None \<Rightarrow> ''undefined'' | Some v \<Rightarrow> v)"

definition zero_counters :: counters where
  "zero_counters = \<lparr>count = 0, bytes = 0\<rparr>"

definition add_item :: "nat \<Rightarrow> counters \<Rightarrow> counters" where
  "add_item n c = c\<lparr>count := count c + 1, bytes := bytes c + n\<rparr>"

text \<open>Lines 122 to 132, on the \<open>aggregates\<close> object of the stage: the bucket is created
  when \<open>_.has\<close> does not find it, and the two \<open>+=\<close> read
  \<open>aggregates[aggKeyValue]\<close>, which throws when there is no such property. The key
  \<open>__proto__\<close> names the prototype of the object and never an own property: the
  assignment replaces the prototype and the increments go there.\<close>

definition increment_aggregate ::
  "string \<Rightarrow> nat \<Rightarrow> (string \<times> counters) list \<Rightarrow> error + (string \<times> counters) list" where
  "increment_aggregate aggKeyValue n aggs0 =
     (if aggKeyValue = ''__proto__'' then Inr aggs0
      else
        let aggs1 = (if \<not> has aggKeyValue (aggregates_val aggs0)
                     then AList.update aggKeyValue zero_counters aggs0 else aggs0)
        in case map_of aggs1 aggKeyValue of
             None \<Rightarrow> Inl (TypeError ''Cannot read properties of undefined (reading 'count')'')
           | Some b \<Rightarrow> Inr (AList.update aggKeyValue (add_item n b) aggs1))"

text \<open>\<open>#incrementTransferProgress(name, data, aggregateKey)\<close>. The result is the
  progress as the method leaves it, also when it throws: the stage's own counters are
  incremented before the aggregates are looked at.\<close>

definition incrementTransferProgress ::
  "TransferStage \<Rightarrow> item \<Rightarrow> string option \<Rightarrow> TransferProgress
     \<Rightarrow> (error + unit) \<times> TransferProgress" where
  "incrementTransferProgress name data aggregateKey progress =
     (let entry0 = (case progress name of
                      None \<Rightarrow> \<lparr>count = 0, bytes = 0, aggregates = None\<rparr>
                    | Some e \<Rightarrow> e);
          n = length (json data);
          entry1 = entry0\<lparr>count := count entry0 + 1, bytes := bytes entry0 + n\<rparr>
      in case aggregateKey of
           None \<Rightarrow> (Inr (), progress(name \<mapsto> entry1))
         | Some k \<Rightarrow>
             if k \<noteq> [] \<and> has k (item_val data) then
               (let aggs0 = (case aggregates entry1 of None \<Rightarrow> [] | Some a \<Rightarrow> a)
                in case increment_aggregate (prop_key data k) n aggs0 of
                     Inl e \<Rightarrow> (Inl e, progress(name \<mapsto> entry1\<lparr>aggregates := Some aggs0\<rparr>))
                   | Inr aggs \<Rightarrow> (Inr (), progress(name \<mapsto> entry1\<lparr>aggregates := Some aggs\<rparr>)))
             else (Inr (), progress(name \<mapsto> entry1)))"

subsection \<open>Providers and their streams\<close>

text \<open>
  Modelled from the spec: the source and destination providers, whose code is not among
  the sources. The model gives each of their operations the outcome the engine sees,
  after the capability sets of the specification (its section 6). An optional method
  called as \<open>await provider.method?.()\<close> is absent, rejects, or resolves.

  A readable stream is a finite sequence. It is given by what the engine sees of it
  until the promise of its stage settles: \<open>chunks\<close> are the chunks that pass the
  counting stream, in order, before the source's \<open>end\<close> or \<open>error\<close> takes effect,
  and \<open>failure\<close> is that error, if the source emits one. \<open>rethrows\<close> says what the
  stream does with an exception that a listener of its data throws: some streams
  catch it and emit it as their own \<open>error\<close> (one made from an iterator does),
  the others let it pass, uncaught, to the runtime.

  A writable stream signals \<open>error\<close> or \<open>close\<close> exactly once. It emits \<open>close\<close>
  once it is ended and has taken all chunks, unless \<open>breaks_after\<close> is
  \<open>Some (n, e)\<close>: then it emits \<open>error e\<close>, and \<open>n\<close> is the number of chunks that
  have passed the counting stream when that error takes effect (the counting runs
  ahead of the destination by what the streams buffer, so \<open>n\<close> is at least the number
  of chunks the destination took); with \<open>n\<close> the number of all chunks, the error
  comes when the destination is ended. An \<open>n\<close> beyond the chunks of the source never
  comes into effect.
\<close>

datatype 'a call = Absent | Throws error | Returns 'a

record Readable =
  chunks :: "item list"
  failure :: "error option"
  rethrows :: bool

record Writable =
  breaks_after :: "(nat \<times> error) option"

text \<open>\<open>metadata?.strapi?.version\<close> is all the engine reads of a metadata object.\<close>

record metadata =
  strapi_version :: "string option"

record provider =
  name :: string
  results :: string
  bootstrap :: "unit call"
  close :: "unit call"
  getMetadata :: "error + metadata option"

record ISourceProvider = provider +
  streamSchemas :: "Readable call"
  streamEntities :: "Readable call"
  streamLinks :: "Readable call"
  streamConfiguration :: "Readable call"

record IDestinationProvider = provider +
  getSchemasStream :: "Writable call"
  getEntitiesStream :: "Writable call"
  getLinksStream :: "Writable call"
  getConfigurationStream :: "Writable call"

text \<open>\<open>await provider.method?.()\<close>: \<open>undefined\<close> (\<open>None\<close>) when the method is absent.\<close>

fun await_call :: "'a call \<Rightarrow> error + 'a option" where
  "await_call Absent = Inr None"
| "await_call (Throws e) = Inl e"
| "await_call (Returns x) = Inr (Some x)"

text \<open>The error a writable stream emits when \<open>i\<close> chunks have passed the counting
  stream.\<close>

definition breaks_at :: "Writable \<Rightarrow> nat \<Rightarrow> error option" where
  "breaks_at outStream i =
     (case breaks_after outStream of
        None \<Rightarrow> None
      | Some (n, e) \<Rightarrow> if n = i then Some e else None)"

subsection \<open>The engine\<close>

text \<open>A progress event \<open>{type, name, data}\<close>. Its \<open>data\<close> is the engine's
  \<open>transferProgress\<close> object itself, not a copy, so the event is its type and name.\<close>

datatype event_type = Start | Progress | Complete

type_synonym ProgressEvent = "event_type \<times> TransferStage"

text \<open>The fields of the class; \<open>progressStream\<close> is the list of the events written to
  the stream, oldest first, and \<open>console_output\<close> the calls of \<open>console.warn\<close> and
  \<open>console.error\<close> the engine has made, each with its arguments.\<close>

record TransferEngine =
  sourceProvider :: ISourceProvider
  destinationProvider :: IDestinationProvider
  options :: ITransferEngineOptions
  transferProgress :: TransferProgress
  progressStream :: "ProgressEvent list"
  console_output :: "(string \<times> string list) list"

text \<open>\<open>createTransferEngine\<close>: the constructor stores its arguments; the progress is
  empty and nothing has been written.\<close>

definition createTransferEngine ::
  "ISourceProvider \<Rightarrow> IDestinationProvider \<Rightarrow> ITransferEngineOptions \<Rightarrow> TransferEngine" where
  "createTransferEngine src dst opts =
     \<lparr>sourceProvider = src, destinationProvider = dst, options = opts,
      transferProgress = Map.empty, progressStream = [], console_output = []\<rparr>"

text \<open>What becomes of the promise an \<open>async\<close> method returns: it resolves with a
  value, it rejects with an error, or it never settles. The last happens when an
  exception leaves a stream callback that nothing routes to the promise; \<open>Pending\<close>
  holds that exception, which reaches the runtime uncaught.\<close>

datatype 'a outcome = Resolves 'a | Rejects error | Pending error

type_synonym 'a action = "TransferEngine \<Rightarrow> 'a outcome \<times> TransferEngine"

text \<open>One awaited statement after another: the second runs on the state the first
  leaves, once the first has resolved; nothing runs after a promise that rejects or
  never settles.\<close>

definition and_then :: "'a action \<Rightarrow> ('a \<Rightarrow> 'b action) \<Rightarrow> 'b action" where
  "and_then m f eng =
     (case m eng of
        (Resolves a, eng') \<Rightarrow> f a eng'
      | (Rejects e, eng') \<Rightarrow> (Rejects e, eng')
      | (Pending e, eng') \<Rightarrow> (Pending e, eng'))"

definition throw :: "error \<Rightarrow> 'a action" where
  "throw e eng = (Rejects e, eng)"

definition return :: "'a \<Rightarrow> 'a action" where
  "return a eng = (Resolves a, eng)"

text \<open>\<open>await\<close> on a provider's answer, which does not touch the engine.\<close>

definition await :: "error + 'a \<Rightarrow> 'a action" where
  "await r eng = (case r of Inl e \<Rightarrow> (Rejects e, eng) | Inr a \<Rightarrow> (Resolves a, eng))"

text \<open>\<open>#updateStep(type, name)\<close>.\<close>

definition updateStep :: "event_type \<Rightarrow> TransferStage \<Rightarrow> TransferEngine \<Rightarrow> TransferEngine" where
  "updateStep type stage eng = eng\<lparr>progressStream := progressStream eng @ [(type, stage)]\<rparr>"

text \<open>The \<open>transform\<close> of the stream \<open>#countRecorder(name, aggregateKey)\<close> returns: it
  counts the chunk, writes a progress event and passes the chunk on. When the counting
  throws, the callback throws and no event is written.\<close>

definition countRecorder ::
  "TransferStage \<Rightarrow> string option \<Rightarrow> item \<Rightarrow> TransferEngine
     \<Rightarrow> (error + item) \<times> TransferEngine" where
  "countRecorder stage aggregateKey data eng =
     (case incrementTransferProgress stage data aggregateKey (transferProgress eng) of
        (Inl e, progress) \<Rightarrow> (Inl e, eng\<lparr>transferProgress := progress\<rparr>)
      | (Inr u, progress) \<Rightarrow>
          (Inr data, eng\<lparr>transferProgress := progress,
                          progressStream := progressStream eng @ [(Progress, stage)]\<rparr>))"

text \<open>\<open>inStream.pipe(this.#countRecorder(...)).pipe(outStream)\<close> while the promise of
  the stage is unsettled, on the chunks from the \<open>i\<close>-th on. The destination's error
  rejects the promise (\<open>outStream.on('error', reject)\<close>) once \<open>i\<close> chunks have been
  counted, if that is its time. Otherwise the next chunk is counted. The \<open>transform\<close>
  callback has no \<open>try\<close>, and the promise listens to the errors of the two provider
  streams only: an exception of the counting settles the promise only when the source
  stream catches it and emits it as its error; with an ordinary source the promise
  never settles.\<close>

fun pipe ::
  "TransferStage \<Rightarrow> string option \<Rightarrow> bool \<Rightarrow> Writable \<Rightarrow> nat \<Rightarrow> item list \<Rightarrow> unit action" where
  "pipe stage aggregateKey caught outStream i [] eng = (Resolves (), eng)"
| "pipe stage aggregateKey caught outStream i (data # rest) eng =
     (case breaks_at outStream i of
        Some e \<Rightarrow> (Rejects e, eng)
      | None \<Rightarrow>
          (case countRecorder stage aggregateKey data eng of
             (Inl x, eng') \<Rightarrow> (if caught then Rejects x else Pending x, eng')
           | (Inr d, eng') \<Rightarrow> pipe stage aggregateKey caught outStream (Suc i) rest eng'))"

text \<open>The promise every streaming stage returns (lines 280 to 295): the source's
  \<open>error\<close> and the destination's \<open>error\<close> reject it, the destination's \<open>close\<close>
  writes the \<open>complete\<close> event and resolves it. After the last chunk the source emits
  its error, if it has one, and the destination is not ended; otherwise the
  destination is ended and emits its error, if this is its time, or \<open>close\<close>. The
  state returned is the engine's at the moment the promise settles, or at the
  exception after which it never does.\<close>

definition stage_promise ::
  "TransferStage \<Rightarrow> string option \<Rightarrow> Readable \<Rightarrow> Writable \<Rightarrow> unit action" where
  "stage_promise stage aggregateKey inStream outStream eng =
     (case pipe stage aggregateKey (rethrows inStream) outStream 0 (chunks inStream) eng of
        (Rejects e, eng') \<Rightarrow> (Rejects e, eng')
      | (Pending e, eng') \<Rightarrow> (Pending e, eng')
      | (Resolves u, eng') \<Rightarrow>
          (case failure inStream of
             Some e \<Rightarrow> (Rejects e, eng')
           | None \<Rightarrow>
               (case breaks_at outStream (length (chunks inStream)) of
                  Some e \<Rightarrow> (Rejects e, eng')
                | None \<Rightarrow> (Resolves (), updateStep Complete stage eng'))))"

definition transferSchemas :: "unit action" where
  "transferSchemas eng =
     and_then (await (await_call (streamSchemas (sourceProvider eng)))) (\<lambda>inStream.
     and_then (await (await_call (getSchemasStream (destinationProvider eng)))) (\<lambda>outStream.
       case inStream of
         None \<Rightarrow> throw (Error ''Unable to transfer schemas, source stream is missing'')
       | Some i \<Rightarrow>
           (case outStream of
              None \<Rightarrow> throw (Error ''Unable to transfer schemas, destination stream is missing'')
            | Some out \<Rightarrow>
                (\<lambda>e. stage_promise Schemas None i out (updateStep Start Schemas e))))) eng"

definition transferEntities :: "unit action" where
  "transferEntities eng =
     and_then (await (await_call (streamEntities (sourceProvider eng)))) (\<lambda>inStream.
     and_then (await (await_call (getEntitiesStream (destinationProvider eng)))) (\<lambda>outStream.
       case inStream of
         None \<Rightarrow> throw (Error ''Unable to transfer entities, source stream is missing'')
       | Some i \<Rightarrow>
           (case outStream of
              None \<Rightarrow> throw (Error ''Unable to transfer entities, destination stream is missing'')
            | Some out \<Rightarrow>
                (\<lambda>e. stage_promise Entities (Some ''type'') i out
                        (updateStep Start Entities e))))) eng"

definition transferLinks :: "unit action" where
  "transferLinks eng =
     and_then (await (await_call (streamLinks (sourceProvider eng)))) (\<lambda>inStream.
     and_then (await (await_call (getLinksStream (destinationProvider eng)))) (\<lambda>outStream.
       case inStream of
         None \<Rightarrow> throw (Error ''Unable to transfer links, source stream is missing'')
       | Some i \<Rightarrow>
           (case outStream of
              None \<Rightarrow> throw (Error ''Unable to transfer links, destination stream is missing'')
            | Some out \<Rightarrow>
                (\<lambda>e. stage_promise Links None i out (updateStep Start Links e))))) eng"

definition transferMedia :: "unit action" where
  "transferMedia eng =
     (let eng1 = updateStep Start Media eng;
          eng2 = eng1\<lparr>console_output :=
                   console_output eng1 @ [(''warn'', [''transferMedia not yet implemented''])]\<rparr>
      in (Resolves (), updateStep Complete Media eng2))"

definition transferConfiguration :: "unit action" where
  "transferConfiguration eng =
     and_then (await (await_call (streamConfiguration (sourceProvider eng)))) (\<lambda>inStream.
     and_then (await (await_call (getConfigurationStream (destinationProvider eng))))
       (\<lambda>outStream.
       case inStream of
         None \<Rightarrow> throw (Error ''Unable to transfer configuration, source stream is missing'')
       | Some i \<Rightarrow>
           (case outStream of
              None \<Rightarrow>
                throw (Error ''Unable to transfer configuration, destination stream is missing'')
            | Some out \<Rightarrow>
                (\<lambda>e. stage_promise Configuration None i out
                        (updateStep Start Configuration e))))) eng"

text \<open>\<open>boostrap\<close> and \<open>close\<close>: \<open>Promise.all\<close> of the two optional calls. Both are made;
  the promise rejects when one of them does (with the source's error here when both
  do).\<close>

definition boostrap :: "unit action" where
  "boostrap eng =
     (case await_call (bootstrap (sourceProvider eng)) of
        Inl e \<Rightarrow> (Rejects e, eng)
      | Inr u \<Rightarrow>
          (case await_call (bootstrap (destinationProvider eng)) of
             Inl e \<Rightarrow> (Rejects e, eng)
           | Inr u' \<Rightarrow> (Resolves (), eng)))"

definition close_engine :: "unit action" where
  "close_engine eng =
     (case await_call (close (sourceProvider eng)) of
        Inl e \<Rightarrow> (Rejects e, eng)
      | Inr u \<Rightarrow>
          (case await_call (close (destinationProvider eng)) of
             Inl e \<Rightarrow> (Rejects e, eng)
           | Inr u' \<Rightarrow> (Resolves (), eng)))"

fun message :: "error \<Rightarrow> string" where
  "message (Error m) = m"
| "message (TypeError m) = m"

text \<open>\<open>integrityCheck\<close>: the \<open>try\<close> block catches what the version check throws, prints
  it and returns \<open>false\<close>.\<close>

definition integrityCheck :: "bool action" where
  "integrityCheck eng =
     and_then (await (getMetadata (sourceProvider eng))) (\<lambda>sourceMetadata.
     and_then (await (getMetadata (destinationProvider eng))) (\<lambda>destinationMetadata.
       case sourceMetadata of
         None \<Rightarrow> return True
       | Some sm \<Rightarrow>
           (case destinationMetadata of
              None \<Rightarrow> return True
            | Some dm \<Rightarrow>
                (case assertStrapiVersionIntegrity (versionMatching (options eng))
                        (strapi_version sm) (strapi_version dm) of
                   Inr u \<Rightarrow> return True
                 | Inl err \<Rightarrow>
                     (\<lambda>e. (Resolves False,
                            e\<lparr>console_output := console_output e @
                                 [(''error'', [''Integrity checks failed:'', message err])]\<rparr>)))))) eng"

record ITransferResults =
  source :: string
  destination :: string

definition unable_to_transfer :: "TransferEngine \<Rightarrow> error" where
  "unable_to_transfer eng =
     Error (''Unable to transfer the data between '' @ name (sourceProvider eng) @ '' and ''
            @ name (destinationProvider eng) @ ''.'' @ [CHR 0x0A]
            @ ''Please refer to the log above for more information.'')"

text \<open>The \<open>try\<close> block of \<open>transfer\<close>, statement by statement.\<close>

definition transfer_try :: "unit action" where
  "transfer_try =
     and_then boostrap (\<lambda>_.
     and_then integrityCheck (\<lambda>isValidTransfer.
     and_then (\<lambda>eng. if \<not> isValidTransfer then throw (unable_to_transfer eng) eng
                      else return () eng) (\<lambda>_.
     and_then transferSchemas (\<lambda>_.
     and_then transferEntities (\<lambda>_.
     and_then transferMedia (\<lambda>_.
     and_then transferLinks (\<lambda>_.
     and_then transferConfiguration (\<lambda>_.
     close_engine))))))))"

text \<open>\<open>transfer\<close>: the \<open>catch\<close> clause throws what it caught; after the block the results
  of the two providers are returned.\<close>

definition transfer :: "ITransferResults action" where
  "transfer eng =
     (case transfer_try eng of
        (Rejects e, eng') \<Rightarrow> (Rejects e, eng')
      | (Pending e, eng') \<Rightarrow> (Pending e, eng')
      | (Resolves u, eng') \<Rightarrow>
          (Resolves \<lparr>source = results (sourceProvider eng'),
                     destination = results (destinationProvider eng')\<rparr>, eng'))"

subsection \<open>The version check as the specification words it\<close>

text \<open>The specification's integrity checker (its section 4.3), for two versions that are
  present: \<open>token[i]\<close> is the \<open>i\<close>-th piece of the dot-separated version, \<open>exact\<close> wants
  identical strings, \<open>major\<close>, \<open>minor\<close> and \<open>patch\<close> want the first one, two and three
  tokens equal. These two definitions follow the specification, not the code.\<close>

definition spec_token :: "string \<Rightarrow> nat \<Rightarrow> string option" where
  "spec_token v i = (let ts = split CHR ''.'' v in if i < length ts then Some (ts ! i) else None)"

fun spec_check :: "versionMatching \<Rightarrow> string \<Rightarrow> string \<Rightarrow> bool" where
  "spec_check Ignore s d = True"
| "spec_check Exact s d = (s = d)"
| "spec_check Major s d = (spec_token s 0 = spec_token d 0)"
| "spec_check Minor s d = (spec_token s 0 = spec_token d 0 \<and> spec_token s 1 = spec_token d 1)"
| "spec_check Patch s d =
     (spec_token s 0 = spec_token d 0 \<and> spec_token s 1 = spec_token d 1 \<and>
      spec_token s 2 = spec_token d 2)"

text \<open>The order of the stages as the specification gives it (its section 4.4).\<close>

definition spec_stage_order :: "TransferStage list" where
  "spec_stage_order = [Schemas, Entities, Links, Media, Configuration]"

subsection \<open>Vocabulary for the properties\<close>

text \<open>The events of a stage that completes after \<open>n\<close> items: its start, one progress
  event for each item, its completion.\<close>

definition stage_events :: "TransferStage \<Rightarrow> nat \<Rightarrow> ProgressEvent list" where
  "stage_events stage n = (Start, stage) # replicate n (Progress, stage) @ [(Complete, stage)]"

text \<open>The method of the engine that runs a stage, the two provider methods it calls
  for its streams (none for the media stage), and the aggregate key it counts with.\<close>

fun run_stage :: "TransferStage \<Rightarrow> unit action" where
  "run_stage Schemas = transferSchemas"
| "run_stage Entities = transferEntities"
| "run_stage Links = transferLinks"
| "run_stage Media = transferMedia"
| "run_stage Configuration = transferConfiguration"

fun source_stream :: "TransferStage \<Rightarrow> ISourceProvider \<Rightarrow> Readable call" where
  "source_stream Schemas p = streamSchemas p"
| "source_stream Entities p = streamEntities p"
| "source_stream Links p = streamLinks p"
| "source_stream Media p = Absent"
| "source_stream Configuration p = streamConfiguration p"

fun destination_stream :: "TransferStage \<Rightarrow> IDestinationProvider \<Rightarrow> Writable call" where
  "destination_stream Schemas p = getSchemasStream p"
| "destination_stream Entities p = getEntitiesStream p"
| "destination_stream Links p = getLinksStream p"
| "destination_stream Media p = Absent"
| "destination_stream Configuration p = getConfigurationStream p"

fun stage_key :: "TransferStage \<Rightarrow> string option" where
  "stage_key Entities = Some ''type''"
| "stage_key stage = None"

text \<open>The number of chunks of the stream a provider method returns.\<close>

fun stream_length :: "Readable call \<Rightarrow> nat" where
  "stream_length (Returns inStream) = length (chunks inStream)"
| "stream_length c = 0"

text \<open>The counters of a stage as a reader of \<open>transferProgress\<close> sees them; a stage
  without an entry has counted nothing.\<close>

definition count_of :: "TransferStage \<Rightarrow> TransferEngine \<Rightarrow> nat" where
  "count_of stage eng = (case transferProgress eng stage of None \<Rightarrow> 0 | Some e \<Rightarrow> count e)"

definition bytes_of :: "TransferStage \<Rightarrow> TransferEngine \<Rightarrow> nat" where
  "bytes_of stage eng = (case transferProgress eng stage of None \<Rightarrow> 0 | Some e \<Rightarrow> bytes e)"

text \<open>What a run of the engine never changes: the providers and the options.\<close>

definition wiring :: "TransferEngine \<Rightarrow> ISourceProvider \<times> IDestinationProvider \<times> ITransferEngineOptions" where
  "wiring eng = (sourceProvider eng, destinationProvider eng, options eng)"

text \<open>The error a stage throws for a missing stream, by stage and side.\<close>

definition missing_stream :: "TransferStage \<Rightarrow> string \<Rightarrow> error" where
  "missing_stream stage side =
     Error (''Unable to transfer '' @ stage_name stage @ '', '' @ side @ '' stream is missing'')"

text \<open>The statements of the \<open>try\<close> block of \<open>transfer\<close> as a list of steps, the
  integrity check together with the \<open>if\<close> that throws on its result, and the run of a
  list of steps, which stops at the first that throws.\<close>

definition valid_transfer :: "unit action" where
  "valid_transfer =
     and_then integrityCheck (\<lambda>isValidTransfer eng.
       if \<not> isValidTransfer then throw (unable_to_transfer eng) eng else return () eng)"

definition transfer_steps :: "unit action list" where
  "transfer_steps =
     [boostrap, valid_transfer, transferSchemas, transferEntities, transferMedia,
      transferLinks, transferConfiguration, close_engine]"

fun run_steps :: "unit action list \<Rightarrow> unit action" where
  "run_steps [] = return ()"
| "run_steps (m # ms) = and_then m (\<lambda>_. run_steps ms)"

text \<open>The order in which \<open>transfer\<close> calls the stages.\<close>

definition stage_order :: "TransferStage list" where
  "stage_order = [Schemas, Entities, Media, Links, Configuration]"

text \<open>The four streaming stages are one method up to the stage, its two provider
  methods and its aggregate key; \<open>stream_stage\<close> is that method, and the properties
  below go through it once it is shown to be each of the four.\<close>

definition stream_stage :: "TransferStage \<Rightarrow> unit action" where
  "stream_stage stage eng =
     (case await_call (source_stream stage (sourceProvider eng)) of
        Inl e \<Rightarrow> (Rejects e, eng)
      | Inr inStream \<Rightarrow>
          (case await_call (destination_stream stage (destinationProvider eng)) of
             Inl e \<Rightarrow> (Rejects e, eng)
           | Inr outStream \<Rightarrow>
               (case inStream of
                  None \<Rightarrow> (Rejects (missing_stream stage ''source''), eng)
                | Some i \<Rightarrow>
                    (case outStream of
                       None \<Rightarrow> (Rejects (missing_stream stage ''destination''), eng)
                     | Some out \<Rightarrow>
                         stage_promise stage (stage_key stage) i out
                           (updateStep Start stage eng)))))"

text \<open>Counting a list of items one after the other, up to the first that throws; the
  number of chunks counted when the streams of a stage stop (all of them, or those
  before the destination's error); and a pair of streams that runs to its end: the
  source ends without an error and the destination closes without one.\<close>

fun count_all ::
  "TransferStage \<Rightarrow> string option \<Rightarrow> item list \<Rightarrow> TransferProgress
     \<Rightarrow> (error + unit) \<times> TransferProgress" where
  "count_all stage k [] progress = (Inr (), progress)"
| "count_all stage k (d # ds) progress =
     (case incrementTransferProgress stage d k progress of
        (Inl e, progress') \<Rightarrow> (Inl e, progress')
      | (Inr u, progress') \<Rightarrow> count_all stage k ds progress')"

definition counted_before :: "Writable \<Rightarrow> item list \<Rightarrow> nat" where
  "counted_before outStream ds =
     (case breaks_after outStream of
        None \<Rightarrow> length ds
      | Some (n, e) \<Rightarrow> min n (length ds))"


text \<open>The counting of a stage throws nothing: none of the chunks that pass the counting
  stream of the stage, on the progress the engine holds, makes
  \<open>#incrementTransferProgress\<close> throw.\<close>

definition counts_cleanly ::
  "TransferStage \<Rightarrow> Readable \<Rightarrow> Writable \<Rightarrow> TransferEngine \<Rightarrow> bool" where
  "counts_cleanly stage inStream outStream eng =
     (fst (count_all stage (stage_key stage)
             (take (counted_before outStream (chunks inStream)) (chunks inStream))
             (transferProgress eng)) = Inr ())"

text \<open>An engine constructed with another \<open>exclude\<close> option, and what it is for a step to
  behave the same whatever \<open>exclude\<close> holds.\<close>

definition with_exclude :: "TransferStage list \<Rightarrow> TransferEngine \<Rightarrow> TransferEngine" where
  "with_exclude xs eng = eng\<lparr>options := (options eng)\<lparr>exclude := xs\<rparr>\<rparr>"

definition ignores_exclude :: "'a action \<Rightarrow> bool" where
  "ignores_exclude m =
     (\<forall>xs eng. m (with_exclude xs eng) = (fst (m eng), with_exclude xs (snd (m eng))))"

text \<open>A step, or a run of steps, that leaves the providers and options alone and writes
  no start event of the given stage.\<close>

definition no_start :: "TransferStage \<Rightarrow> TransferEngine \<Rightarrow> TransferEngine \<Rightarrow> bool" where
  "no_start stage eng eng' =
     (wiring eng' = wiring eng \<and>
      (\<exists>evs. progressStream eng' = progressStream eng @ evs \<and> (Start, stage) \<notin> set evs))"

text \<open>An item carries the aggregate key \<open>k\<close> when the counting looks at its value:
  the key is not empty and \<open>_.has(k, data)\<close> holds. Then the items of a list that
  carry a key, and the sums of the counters over the aggregate buckets of a stage.\<close>

definition carries :: "string \<Rightarrow> item \<Rightarrow> bool" where
  "carries k d = (k \<noteq> [] \<and> has k (item_val d))"

definition carrying :: "string \<Rightarrow> item list \<Rightarrow> item list" where
  "carrying k ds = filter (carries k) ds"

definition buckets_of :: "TransferStage \<Rightarrow> TransferEngine \<Rightarrow> (string \<times> counters) list" where
  "buckets_of stage eng =
     (case transferProgress eng stage of
        None \<Rightarrow> []
      | Some e \<Rightarrow> (case aggregates e of None \<Rightarrow> [] | Some aggs \<Rightarrow> aggs))"

definition aggregate_count :: "TransferStage \<Rightarrow> TransferEngine \<Rightarrow> nat" where
  "aggregate_count stage eng = sum_list (map (\<lambda>(k, c). count c) (buckets_of stage eng))"

definition aggregate_bytes :: "TransferStage \<Rightarrow> TransferEngine \<Rightarrow> nat" where
  "aggregate_bytes stage eng = sum_list (map (\<lambda>(k, c). bytes c) (buckets_of stage eng))"

text \<open>A bucket key that \<open>_.has\<close> takes as one key (a plain word, or a string without
  path syntax) and that is not \<open>__proto__\<close>.\<close>

definition plain_key :: "string \<Rightarrow> bool" where
  "plain_key v = (v \<noteq> ''__proto__'' \<and> (isPlainProp v \<or> \<not> isDeepProp v))"

subsection \<open>Example providers\<close>

text \<open>Two providers whose streams hold a few items, with the same version in their
  metadata, and an engine made from them; the concrete runs below start from it.\<close>

definition example_item :: "string \<Rightarrow> string \<Rightarrow> item" where
  "example_item t js = \<lparr>props = [(''type'', t)], json = js\<rparr>"

definition example_stream :: "item list \<Rightarrow> Readable" where
  "example_stream xs = \<lparr>chunks = xs, failure = None, rethrows = False\<rparr>"

definition example_sink :: Writable where
  "example_sink = \<lparr>breaks_after = None\<rparr>"

definition example_entities :: Readable where
  \<open>example_entities =
     example_stream
       [example_item ''api::article.article'' ''{"type":"api::article.article","id":1}'',
        example_item ''admin::user'' ''{"type":"admin::user","id":1}'',
        example_item ''api::article.article'' ''{"type":"api::article.article","id":2}'']\<close>

definition example_source :: ISourceProvider where
  \<open>example_source =
     \<lparr>name = ''source::local-strapi'', results = ''source results'',
      bootstrap = Returns (), close = Returns (),
      getMetadata = Inr (Some \<lparr>strapi_version = Some ''4.5.0''\<rparr>),
      streamSchemas = Returns (example_stream [example_item ''schema'' ''{"type":"schema"}'']),
      streamEntities = Returns example_entities,
      streamLinks = Returns (example_stream [example_item ''link'' ''{"type":"link"}'']),
      streamConfiguration = Returns (example_stream [])\<rparr>\<close>

definition example_destination :: IDestinationProvider where
  "example_destination =
     \<lparr>name = ''destination::local-file'', results = ''destination results'',
      bootstrap = Absent, close = Returns (),
      getMetadata = Inr (Some \<lparr>strapi_version = Some ''4.5.0''\<rparr>),
      getSchemasStream = Returns example_sink, getEntitiesStream = Returns example_sink,
      getLinksStream = Returns example_sink, getConfigurationStream = Returns example_sink\<rparr>"

definition example_options :: ITransferEngineOptions where
  "example_options = \<lparr>strategy = ''restore'', versionMatching = Exact, exclude = []\<rparr>"

definition example_engine :: TransferEngine where
  "example_engine = createTransferEngine example_source example_destination example_options"



definition no_links_engine :: TransferEngine where
  "no_links_engine =
     createTransferEngine (example_source\<lparr>streamLinks := Absent\<rparr>) example_destination
       example_options"

definition no_links_rejecting_engine :: TransferEngine where
  "no_links_rejecting_engine =
     createTransferEngine (example_source\<lparr>streamLinks := Absent\<rparr>)
       (example_destination\<lparr>getLinksStream := Throws (Error ''archive is read-only'')\<rparr>)
       example_options"

definition no_schemas_no_links_engine :: TransferEngine where
  "no_schemas_no_links_engine =
     createTransferEngine (example_source\<lparr>streamSchemas := Absent, streamLinks := Absent\<rparr>)
       example_destination example_options"

definition no_sink_engine :: TransferEngine where
  "no_sink_engine =
     createTransferEngine example_source
       (example_destination\<lparr>getConfigurationStream := Absent\<rparr>) example_options"







text \<open>Two entities whose types are \<open>a\<close> and \<open>a.count\<close>, the progress after the first
  has been counted, an engine whose source streams the two, and one whose source
  streams two entities of the type \<open>__proto__\<close>.\<close>

definition item_a :: item where
  \<open>item_a = example_item ''a'' ''{"type":"a"}''\<close>

definition item_a_count :: item where
  \<open>item_a_count = example_item ''a.count'' ''{"type":"a.count"}''\<close>

definition item_proto :: item where
  \<open>item_proto = example_item ''__proto__'' ''{"type":"__proto__"}''\<close>

definition progress_after_a :: TransferProgress where
  "progress_after_a = snd (incrementTransferProgress Entities item_a (Some ''type'') Map.empty)"

definition path_value_engine :: TransferEngine where
  "path_value_engine =
     createTransferEngine
       (example_source\<lparr>streamEntities := Returns (example_stream [item_a, item_a_count])\<rparr>)
       example_destination example_options"

definition proto_value_engine :: TransferEngine where
  "proto_value_engine =
     createTransferEngine
       (example_source\<lparr>streamEntities := Returns (example_stream [item_proto, item_proto])\<rparr>)
       example_destination example_options"

section \<open>Properties\<close>

subsection \<open>The version check\<close>

lemma split_not_Nil: "split sep s \<noteq> []"
  by (induction s) (auto split: list.splits)

lemma truthy_at_token_matches:
  "truthy_at (token_matches ss ds) i = (i < length ss \<and> i < length ds \<and> ss ! i = ds ! i)"
proof (induction ss ds arbitrary: i rule: token_matches.induct)
  case (1 ds)
  then show ?case by (simp add: truthy_at_def)
next
  case (2 s ss)
  then show ?case by (cases i) (auto simp: truthy_at_def)
next
  case (3 s ss d ds)
  then show ?case by (cases i) (auto simp: truthy_at_def)
qed

lemma first_tokens_agree:
  "(\<forall>i<n. i < length ss \<and> i < length ds \<and> ss ! i = ds ! i) =
   (n \<le> length ss \<and> take n ss = take n (ds :: string list))"
proof
  assume a: "\<forall>i<n. i < length ss \<and> i < length ds \<and> ss ! i = ds ! i"
  have "n \<le> length ss \<and> n \<le> length ds"
  proof (cases n)
    case 0
    then show ?thesis by simp
  next
    case (Suc m)
    with a have "m < length ss \<and> m < length ds" by simp
    with Suc show ?thesis by simp
  qed
  moreover from this a have "take n ss = take n ds"
    by (intro nth_equalityI) simp_all
  ultimately show "n \<le> length ss \<and> take n ss = take n ds" by simp
next
  assume b: "n \<le> length ss \<and> take n ss = take n ds"
  then have "length (take n ds) = n"
    by (metis length_take min.absorb2)
  then have nd: "n \<le> length ds" by simp
  show "\<forall>i<n. i < length ss \<and> i < length ds \<and> ss ! i = ds ! i"
  proof (intro allI impI)
    fix i assume i: "i < n"
    from b have "take n ss ! i = take n ds ! i" by simp
    with i have "ss ! i = ds ! i" by simp
    moreover from i b nd have "i < length ss \<and> i < length ds" by simp
    ultimately show "i < length ss \<and> i < length ds \<and> ss ! i = ds ! i" by simp
  qed
qed

lemma truthy_prefix:
  "(\<forall>i<n. truthy_at (token_matches ss ds) i) = (n \<le> length ss \<and> take n ss = take n ds)"
  by (simp add: truthy_at_token_matches first_tokens_agree)

lemma all_less_1: "(\<forall>i<Suc 0. P i) = P 0" by auto
lemma all_less_2: "(\<forall>i<2. P i) = (P 0 \<and> P (Suc 0))" by (auto simp: less_Suc_eq numeral_2_eq_2)
lemma all_less_3: "(\<forall>i<3. P i) = (P 0 \<and> P (Suc 0) \<and> P 2)" by (auto simp: less_Suc_eq numeral_3_eq_3 numeral_2_eq_2)

lemma version_check_passes:
  assumes "sv \<noteq> []" and "dv \<noteq> []"
  shows "(assertStrapiVersionIntegrity strat (Some sv) (Some dv) = Inr ()) =
           (case strat of
              Ignore \<Rightarrow> True
            | Exact \<Rightarrow> sv = dv
            | Major \<Rightarrow> take 1 (split CHR ''.'' sv) = take 1 (split CHR ''.'' dv)
            | Minor \<Rightarrow> 2 \<le> length (split CHR ''.'' sv) \<and>
                        take 2 (split CHR ''.'' sv) = take 2 (split CHR ''.'' dv)
            | Patch \<Rightarrow> 3 \<le> length (split CHR ''.'' sv) \<and>
                        take 3 (split CHR ''.'' sv) = take 3 (split CHR ''.'' dv))"
proof -
  let ?ss = "split CHR ''.'' sv" and ?ds = "split CHR ''.'' dv"
  let ?ms = "token_matches ?ss ?ds"
  have one: "truthy_at ?ms 0 = (take 1 ?ss = take 1 ?ds)"
    using truthy_prefix [of 1 ?ss ?ds] split_not_Nil [of "CHR ''.''" sv]
    by (simp add: all_less_1 Suc_le_eq)
  have two: "(truthy_at ?ms 0 \<and> truthy_at ?ms 1) = (2 \<le> length ?ss \<and> take 2 ?ss = take 2 ?ds)"
    using truthy_prefix [of 2 ?ss ?ds] by (simp add: all_less_2)
  have three: "(truthy_at ?ms 0 \<and> truthy_at ?ms 1 \<and> truthy_at ?ms 2) =
                 (3 \<le> length ?ss \<and> take 3 ?ss = take 3 ?ds)"
    using truthy_prefix [of 3 ?ss ?ds] by (simp add: all_less_3)
  show ?thesis
    using assms one two three
    by (cases strat) (simp_all add: assertStrapiVersionIntegrity_def version_text_def Let_def)
qed

lemma version_check_outcomes:
  "assertStrapiVersionIntegrity strat (Some sv) (Some dv) = Inr () \<or>
   assertStrapiVersionIntegrity strat (Some sv) (Some dv) =
     Inl (Error (mismatch_message strat sv dv))"
  by (simp add: assertStrapiVersionIntegrity_def version_text_def Let_def)

subsection \<open>What the steps of a transfer change\<close>

lemma increment_counts:
  assumes "incrementTransferProgress stage d k p = (r, p')"
  shows "\<exists>e. p' stage = Some e \<and>
           count e = (case p stage of None \<Rightarrow> 0 | Some e0 \<Rightarrow> count e0) + 1 \<and>
           bytes e = (case p stage of None \<Rightarrow> 0 | Some e0 \<Rightarrow> bytes e0) + length (json d)"
    and "t \<noteq> stage \<Longrightarrow> p' t = p t"
  using assms
  by (auto simp: incrementTransferProgress_def Let_def
      split: option.splits if_splits sum.splits)





lemma countRecorder_effect:
  assumes "countRecorder stage k d eng = (r, eng')"
  shows "wiring eng' = wiring eng" and "console_output eng' = console_output eng"
    and "progressStream eng' =
           progressStream eng @ (case r of Inl e \<Rightarrow> [] | Inr x \<Rightarrow> [(Progress, stage)])"
    and "count_of stage eng' = count_of stage eng + 1"
    and "bytes_of stage eng' = bytes_of stage eng + length (json d)"
    and "t \<noteq> stage \<Longrightarrow> transferProgress eng' t = transferProgress eng t"
proof -
  obtain r0 p' where inc:
    "incrementTransferProgress stage d k (transferProgress eng) = (r0, p')"
    by (cases "incrementTransferProgress stage d k (transferProgress eng)")
  from assms inc have eng': "transferProgress eng' = p'"
    by (auto simp: countRecorder_def split: sum.splits)
  from assms inc show "wiring eng' = wiring eng" "console_output eng' = console_output eng"
    "progressStream eng' =
           progressStream eng @ (case r of Inl e \<Rightarrow> [] | Inr x \<Rightarrow> [(Progress, stage)])"
    by (auto simp: countRecorder_def wiring_def split: sum.splits)
  from increment_counts(1) [OF inc] eng'
  show "count_of stage eng' = count_of stage eng + 1"
    "bytes_of stage eng' = bytes_of stage eng + length (json d)"
    by (auto simp: count_of_def bytes_of_def)
  show "transferProgress eng' t = transferProgress eng t" if "t \<noteq> stage"
    using increment_counts(2) [OF inc that] eng' by simp
qed

lemma pipe_effect:
  assumes "pipe stage k c out i xs eng = (r, eng')"
  shows "wiring eng' = wiring eng \<and> console_output eng' = console_output eng \<and>
         (\<forall>t. t \<noteq> stage \<longrightarrow> transferProgress eng' t = transferProgress eng t) \<and>
         (\<exists>n\<le>length xs. progressStream eng' = progressStream eng @ replicate n (Progress, stage) \<and>
            (r = Resolves () \<longrightarrow> n = length xs \<and> count_of stage eng' = count_of stage eng + n))"
  using assms
proof (induction xs arbitrary: eng i)
  case Nil
  then show ?case by auto
next
  case (Cons d xs)
  show ?case
  proof (cases "breaks_at out i")
    case (Some e)
    with Cons.prems have "r = Rejects e" "eng' = eng" by auto
    then show ?thesis by (auto intro: exI [of _ 0])
  next
    case None
    obtain r1 eng1 where rec: "countRecorder stage k d eng = (r1, eng1)"
      by (cases "countRecorder stage k d eng")
    note eff = countRecorder_effect [OF rec]
    show ?thesis
    proof (cases r1)
      case (Inl x)
      with Cons.prems rec None have "r \<noteq> Resolves ()" "eng' = eng1"
        by (auto split: if_splits)
      with eff Inl show ?thesis by (auto intro: exI [of _ 0])
    next
      case (Inr x)
      with Cons.prems rec None have "pipe stage k c out (Suc i) xs eng1 = (r, eng')"
        by auto
      from Cons.IH [OF this] obtain n where n: "n \<le> length xs"
        "progressStream eng' = progressStream eng1 @ replicate n (Progress, stage)"
        "r = Resolves () \<longrightarrow> n = length xs \<and> count_of stage eng' = count_of stage eng1 + n"
        and fr: "wiring eng' = wiring eng1" "console_output eng' = console_output eng1"
        "\<forall>t. t \<noteq> stage \<longrightarrow> transferProgress eng' t = transferProgress eng1 t"
        by blast
      from n eff Inr have "Suc n \<le> length (d # xs) \<and>
          progressStream eng' = progressStream eng @ replicate (Suc n) (Progress, stage) \<and>
          (r = Resolves () \<longrightarrow> Suc n = length (d # xs) \<and>
             count_of stage eng' = count_of stage eng + Suc n)"
        by (auto simp: replicate_app_Cons_same)
      with fr eff show ?thesis by (metis (no_types, lifting))
    qed
  qed
qed




lemma breaks_at_iff: "(breaks_at out i = Some e) = (breaks_after out = Some (i, e))"
  by (auto simp: breaks_at_def split: option.splits if_splits)

lemma breaks_at_None: "(breaks_at out i = None) = (\<forall>e. breaks_after out \<noteq> Some (i, e))"
  by (auto simp: breaks_at_def split: option.splits if_splits)







lemma stage_promise_effect:
  assumes "stage_promise stage k inStream out eng = (r, eng')"
  shows "wiring eng' = wiring eng \<and> console_output eng' = console_output eng \<and>
         (\<forall>t. t \<noteq> stage \<longrightarrow> transferProgress eng' t = transferProgress eng t) \<and>
         (\<exists>n\<le>length (chunks inStream).
            progressStream eng' = progressStream eng @ replicate n (Progress, stage) @
              (if r = Resolves () then [(Complete, stage)] else []) \<and>
            (r = Resolves () \<longrightarrow> n = length (chunks inStream) \<and>
               count_of stage eng' = count_of stage eng + n))"
proof -
  obtain r1 eng1 where p:
    "pipe stage k (rethrows inStream) out 0 (chunks inStream) eng = (r1, eng1)"
    by (cases "pipe stage k (rethrows inStream) out 0 (chunks inStream) eng")
  from pipe_effect [OF p] obtain n where n: "n \<le> length (chunks inStream)"
    "progressStream eng1 = progressStream eng @ replicate n (Progress, stage)"
    "r1 = Resolves () \<longrightarrow> n = length (chunks inStream) \<and> count_of stage eng1 = count_of stage eng + n"
    and fr: "wiring eng1 = wiring eng" "console_output eng1 = console_output eng"
    "\<forall>t. t \<noteq> stage \<longrightarrow> transferProgress eng1 t = transferProgress eng t"
    by blast
  show ?thesis
  proof (cases "r = Resolves ()")
    case False
    with assms p have "eng' = eng1"
      by (auto simp: stage_promise_def split: outcome.splits option.splits)
    with False n fr show ?thesis by auto
  next
    case True
    with assms p have r1: "r1 = Resolves ()" and e: "eng' = updateStep Complete stage eng1"
      by (auto simp: stage_promise_def split: outcome.splits option.splits)
    with True n fr show ?thesis
      by (auto simp: updateStep_def wiring_def count_of_def)
  qed
qed

lemma run_stage_stream_stage: "stage \<noteq> Media \<Longrightarrow> run_stage stage eng = stream_stage stage eng"
  by (cases stage)
    (auto simp: stream_stage_def transferSchemas_def transferEntities_def transferLinks_def
      transferConfiguration_def and_then_def await_def throw_def missing_stream_def
      split: sum.splits option.splits)

lemma stream_stage_effect:
  assumes "stream_stage stage eng = (r, eng')"
  shows "wiring eng' = wiring eng \<and> console_output eng' = console_output eng \<and>
         (\<forall>t. t \<noteq> stage \<longrightarrow> transferProgress eng' t = transferProgress eng t) \<and>
         ((eng' = eng \<and> (\<exists>e. r = Rejects e)) \<or>
          (\<exists>n inStream. source_stream stage (sourceProvider eng) = Returns inStream \<and>
             n \<le> length (chunks inStream) \<and>
             progressStream eng' = progressStream eng @ (Start, stage) #
               replicate n (Progress, stage) @
               (if r = Resolves () then [(Complete, stage)] else []) \<and>
             (r = Resolves () \<longrightarrow> n = length (chunks inStream) \<and>
               count_of stage eng' = count_of stage eng + n)))"
proof (cases "\<exists>i out. source_stream stage (sourceProvider eng) = Returns i \<and>
    destination_stream stage (destinationProvider eng) = Returns out")
  case False
  with assms have "eng' = eng \<and> (\<exists>e. r = Rejects e)"
    by (cases "source_stream stage (sourceProvider eng)";
        cases "destination_stream stage (destinationProvider eng)")
      (auto simp: stream_stage_def)
  then show ?thesis by simp
next
  case True
  then obtain i out where io: "source_stream stage (sourceProvider eng) = Returns i"
    "destination_stream stage (destinationProvider eng) = Returns out" by blast
  with assms have "stage_promise stage (stage_key stage) i out (updateStep Start stage eng)
      = (r, eng')"
    by (simp add: stream_stage_def)
  from stage_promise_effect [OF this] io show ?thesis
    by (auto simp: updateStep_def wiring_def count_of_def)
qed

lemma transferMedia_effect:
  "transferMedia eng =
     (Resolves (), eng\<lparr>progressStream := progressStream eng @ [(Start, Media), (Complete, Media)],
                  console_output := console_output eng @
                    [(''warn'', [''transferMedia not yet implemented''])]\<rparr>)"
  by (simp add: transferMedia_def updateStep_def Let_def)

lemma run_stage_effect:
  assumes "run_stage stage eng = (r, eng')"
  shows "wiring eng' = wiring eng \<and>
         (\<forall>t. t \<noteq> stage \<longrightarrow> transferProgress eng' t = transferProgress eng t) \<and>
         ((progressStream eng' = progressStream eng \<and>
           transferProgress eng' = transferProgress eng \<and> (\<exists>e. r = Rejects e)) \<or>
          (\<exists>n. n \<le> stream_length (source_stream stage (sourceProvider eng)) \<and>
             progressStream eng' = progressStream eng @ (Start, stage) #
               replicate n (Progress, stage) @
               (if r = Resolves () then [(Complete, stage)] else []) \<and>
             (r = Resolves () \<longrightarrow> n = stream_length (source_stream stage (sourceProvider eng)) \<and>
               count_of stage eng' = count_of stage eng + n)))"
proof (cases "stage = Media")
  case True
  with assms have "r = Resolves ()" and
    "eng' = eng\<lparr>progressStream := progressStream eng @ [(Start, Media), (Complete, Media)],
                  console_output := console_output eng @
                    [(''warn'', [''transferMedia not yet implemented''])]\<rparr>"
    by (simp_all add: transferMedia_effect)
  with True show ?thesis
    by (simp add: wiring_def count_of_def)
next
  case False
  with assms have "stream_stage stage eng = (r, eng')"
    by (simp add: run_stage_stream_stage)
  from stream_stage_effect [OF this] show ?thesis
    by (elim conjE disjE exE) (simp, force)
qed

lemma run_stage_success:
  assumes "run_stage stage eng = (Resolves (), eng')"
  shows "progressStream eng' = progressStream eng @
           stage_events stage (stream_length (source_stream stage (sourceProvider eng)))"
    and "count_of stage eng' =
           count_of stage eng + stream_length (source_stream stage (sourceProvider eng))"
    and "wiring eng' = wiring eng"
    and "t \<noteq> stage \<Longrightarrow> count_of t eng' = count_of t eng"
  using run_stage_effect [OF assms] by (auto simp: stage_events_def count_of_def)






text \<open>A stage whose provider calls reject or lack a stream.\<close>

lemma run_stage_calls:
  assumes "stage \<noteq> Media"
  shows "source_stream stage (sourceProvider eng) = Throws e \<Longrightarrow>
           run_stage stage eng = (Rejects e, eng)"
    and "\<forall>x. source_stream stage (sourceProvider eng) \<noteq> Throws x \<Longrightarrow>
         destination_stream stage (destinationProvider eng) = Throws e \<Longrightarrow>
           run_stage stage eng = (Rejects e, eng)"
    and "source_stream stage (sourceProvider eng) = Absent \<Longrightarrow>
         \<forall>x. destination_stream stage (destinationProvider eng) \<noteq> Throws x \<Longrightarrow>
           run_stage stage eng = (Rejects (missing_stream stage ''source''), eng)"
    and "source_stream stage (sourceProvider eng) = Returns inStream \<Longrightarrow>
         destination_stream stage (destinationProvider eng) = Absent \<Longrightarrow>
           run_stage stage eng = (Rejects (missing_stream stage ''destination''), eng)"
proof -
  show "source_stream stage (sourceProvider eng) = Throws e \<Longrightarrow>
           run_stage stage eng = (Rejects e, eng)"
    by (simp add: run_stage_stream_stage [OF assms] stream_stage_def)
  show "\<forall>x. source_stream stage (sourceProvider eng) \<noteq> Throws x \<Longrightarrow>
         destination_stream stage (destinationProvider eng) = Throws e \<Longrightarrow>
           run_stage stage eng = (Rejects e, eng)"
    by (cases "source_stream stage (sourceProvider eng)")
      (simp_all add: run_stage_stream_stage [OF assms] stream_stage_def)
  show "source_stream stage (sourceProvider eng) = Absent \<Longrightarrow>
         \<forall>x. destination_stream stage (destinationProvider eng) \<noteq> Throws x \<Longrightarrow>
           run_stage stage eng = (Rejects (missing_stream stage ''source''), eng)"
    by (cases "destination_stream stage (destinationProvider eng)")
      (simp_all add: run_stage_stream_stage [OF assms] stream_stage_def)
  show "source_stream stage (sourceProvider eng) = Returns inStream \<Longrightarrow>
         destination_stream stage (destinationProvider eng) = Absent \<Longrightarrow>
           run_stage stage eng = (Rejects (missing_stream stage ''destination''), eng)"
    by (simp add: run_stage_stream_stage [OF assms] stream_stage_def)
qed

lemma boostrap_effect: "boostrap eng = (r, eng') \<Longrightarrow> eng' = eng"
  by (auto simp: boostrap_def split: sum.splits)

lemma close_engine_effect: "close_engine eng = (r, eng') \<Longrightarrow> eng' = eng"
  by (auto simp: close_engine_def split: sum.splits)

lemma integrityCheck_effect:
  assumes "integrityCheck eng = (r, eng')"
  shows "wiring eng' = wiring eng" and "progressStream eng' = progressStream eng"
    and "transferProgress eng' = transferProgress eng"
  using assms
  by (auto simp: integrityCheck_def and_then_def await_def return_def wiring_def
      split: sum.splits option.splits)

lemma valid_transfer_effect:
  assumes "valid_transfer eng = (r, eng')"
  shows "wiring eng' = wiring eng" and "progressStream eng' = progressStream eng"
    and "transferProgress eng' = transferProgress eng"
proof -
  obtain r1 eng1 where ic: "integrityCheck eng = (r1, eng1)"
    by (cases "integrityCheck eng")
  with assms have "eng' = eng1"
    by (auto simp: valid_transfer_def and_then_def throw_def return_def
        split: outcome.splits if_splits)
  with integrityCheck_effect [OF ic]
  show "wiring eng' = wiring eng" "progressStream eng' = progressStream eng"
    "transferProgress eng' = transferProgress eng" by simp_all
qed

lemma and_then_assoc:
  "and_then (and_then m f) g = and_then m (\<lambda>a. and_then (f a) g)"
  by (rule ext) (simp add: and_then_def split: prod.splits outcome.splits)

lemma and_then_return: "and_then m return = m"
  by (rule ext) (simp add: and_then_def return_def split: prod.splits outcome.splits)

lemma transfer_try_steps: "transfer_try = run_steps transfer_steps"
  by (simp add: transfer_try_def transfer_steps_def valid_transfer_def and_then_assoc
      and_then_return)

lemma and_then_Resolves:
  "(and_then m f eng = (Resolves b, eng')) =
   (\<exists>a eng1. m eng = (Resolves a, eng1) \<and> f a eng1 = (Resolves b, eng'))"
  by (cases "m eng") (auto simp: and_then_def split: outcome.splits)





lemma transfer_success_chain:
  assumes "transfer eng = (Resolves res, eng')"
  shows "\<exists>e2 e3 e4 e5 e6.
           valid_transfer eng = (Resolves (), e2) \<and>
           run_stage Schemas e2 = (Resolves (), e3) \<and>
           run_stage Entities e3 = (Resolves (), e4) \<and>
           run_stage Media e4 = (Resolves (), e5) \<and>
           run_stage Links e5 = (Resolves (), e6) \<and>
           run_stage Configuration e6 = (Resolves (), eng')"
proof -
  from assms have "transfer_try eng = (Resolves (), eng')"
    by (auto simp: transfer_def split: prod.splits outcome.splits)
  then have "run_steps transfer_steps eng = (Resolves (), eng')"
    by (simp add: transfer_try_steps)
  then obtain e1 e2 e3 e4 e5 e6 e7 where
    "boostrap eng = (Resolves (), e1)" "valid_transfer e1 = (Resolves (), e2)"
    "transferSchemas e2 = (Resolves (), e3)" "transferEntities e3 = (Resolves (), e4)"
    "transferMedia e4 = (Resolves (), e5)" "transferLinks e5 = (Resolves (), e6)"
    "transferConfiguration e6 = (Resolves (), e7)" "close_engine e7 = (Resolves (), eng')"
    by (auto simp: transfer_steps_def and_then_Resolves return_def)
  then show ?thesis
    using boostrap_effect [of eng "Resolves ()" e1]
      close_engine_effect [of e7 "Resolves ()" eng']
    by auto
qed

lemma transfer_success_events:
  assumes "transfer eng = (Resolves res, eng')"
  shows "progressStream eng' = progressStream eng @
           concat (map (\<lambda>stage. stage_events stage
             (stream_length (source_stream stage (sourceProvider eng)))) stage_order)"
    and "count_of stage eng' =
           count_of stage eng + stream_length (source_stream stage (sourceProvider eng))"
    and "wiring eng' = wiring eng"
proof -
  from transfer_success_chain [OF assms] obtain e2 e3 e4 e5 e6 where c:
    "valid_transfer eng = (Resolves (), e2)" "run_stage Schemas e2 = (Resolves (), e3)"
    "run_stage Entities e3 = (Resolves (), e4)" "run_stage Media e4 = (Resolves (), e5)"
    "run_stage Links e5 = (Resolves (), e6)" "run_stage Configuration e6 = (Resolves (), eng')"
    by blast
  note v = valid_transfer_effect [OF c(1)]
  note s1 = run_stage_success [OF c(2)] and s2 = run_stage_success [OF c(3)]
    and s3 = run_stage_success [OF c(4)] and s4 = run_stage_success [OF c(5)]
    and s5 = run_stage_success [OF c(6)]
  have w: "sourceProvider e2 = sourceProvider eng" "sourceProvider e3 = sourceProvider eng"
    "sourceProvider e4 = sourceProvider eng" "sourceProvider e5 = sourceProvider eng"
    "sourceProvider e6 = sourceProvider eng"
    using v(1) s1(3) s2(3) s3(3) s4(3) by (simp_all add: wiring_def)
  show "wiring eng' = wiring eng"
    using v(1) s1(3) s2(3) s3(3) s4(3) s5(3) by simp
  show "progressStream eng' = progressStream eng @
           concat (map (\<lambda>stage. stage_events stage
             (stream_length (source_stream stage (sourceProvider eng)))) stage_order)"
    using v(2) s1(1) s2(1) s3(1) s4(1) s5(1) w by (simp add: stage_order_def)
  have c0: "count_of stage e2 = count_of stage eng"
    using v(3) by (simp add: count_of_def)
  show "count_of stage eng' =
           count_of stage eng + stream_length (source_stream stage (sourceProvider eng))"
    using c0 s1(2,4) s2(2,4) s3(2,4) s4(2,4) s5(2,4) w
    by (cases stage) simp_all
qed
subsection \<open>The exclude option\<close>

lemma ignores_excludeI:
  "(\<And>xs eng. m (with_exclude xs eng) = (fst (m eng), with_exclude xs (snd (m eng))))
     \<Longrightarrow> ignores_exclude m"
  by (simp add: ignores_exclude_def)

lemma ignores_excludeD:
  "ignores_exclude m \<Longrightarrow> m (with_exclude xs eng) = (fst (m eng), with_exclude xs (snd (m eng)))"
  by (simp add: ignores_exclude_def)

lemma ignores_exclude_and_then:
  assumes "ignores_exclude m" and "\<And>a. ignores_exclude (f a)"
  shows "ignores_exclude (and_then m f)"
proof (rule ignores_excludeI)
  fix xs eng
  obtain r eng1 where m: "m eng = (r, eng1)" by (cases "m eng")
  with ignores_excludeD [OF assms(1), of xs eng]
  have m': "m (with_exclude xs eng) = (r, with_exclude xs eng1)" by simp
  show "and_then m f (with_exclude xs eng) =
          (fst (and_then m f eng), with_exclude xs (snd (and_then m f eng)))"
  proof (cases r)
    case (Resolves a)
    with m m' ignores_excludeD [OF assms(2), of a xs eng1] show ?thesis
      by (simp add: and_then_def)
  next
    case (Rejects e)
    with m m' show ?thesis by (simp add: and_then_def)
  next
    case (Pending e)
    with m m' show ?thesis by (simp add: and_then_def)
  qed
qed

lemma countRecorder_exclude:
  "countRecorder stage k d (with_exclude xs eng) =
     (fst (countRecorder stage k d eng), with_exclude xs (snd (countRecorder stage k d eng)))"
  by (simp add: countRecorder_def with_exclude_def split: prod.splits sum.splits)

lemma ignores_exclude_pipe: "ignores_exclude (pipe stage k c out i ds)"
proof (induction ds arbitrary: i)
  case Nil
  show ?case by (rule ignores_excludeI) simp
next
  case (Cons d ds)
  show ?case
  proof (rule ignores_excludeI)
    fix xs eng
    obtain r eng1 where c: "countRecorder stage k d eng = (r, eng1)"
      by (cases "countRecorder stage k d eng")
    with countRecorder_exclude [of stage k d xs eng]
    have c': "countRecorder stage k d (with_exclude xs eng) = (r, with_exclude xs eng1)"
      by simp
    from c c' ignores_excludeD [OF Cons.IH, of "Suc i" xs eng1]
    show "pipe stage k c out i (d # ds) (with_exclude xs eng) =
            (fst (pipe stage k c out i (d # ds) eng),
             with_exclude xs (snd (pipe stage k c out i (d # ds) eng)))"
      by (simp split: sum.splits option.splits)
  qed
qed

lemma ignores_exclude_stage_promise: "ignores_exclude (stage_promise stage k i out)"
proof (rule ignores_excludeI)
  fix xs eng
  obtain r eng1 where p: "pipe stage k (rethrows i) out 0 (chunks i) eng = (r, eng1)"
    by (cases "pipe stage k (rethrows i) out 0 (chunks i) eng")
  with ignores_excludeD [OF ignores_exclude_pipe, of stage k "rethrows i" out 0 "chunks i" xs eng]
  have "pipe stage k (rethrows i) out 0 (chunks i) (with_exclude xs eng) =
      (r, with_exclude xs eng1)"
    by simp
  with p show "stage_promise stage k i out (with_exclude xs eng) =
      (fst (stage_promise stage k i out eng),
       with_exclude xs (snd (stage_promise stage k i out eng)))"
    by (simp add: stage_promise_def updateStep_def with_exclude_def
        split: outcome.splits option.splits)
qed

lemma ignores_exclude_run_stage: "ignores_exclude (run_stage stage)"
proof (cases "stage = Media")
  case True
  then show ?thesis
    by (auto intro!: ignores_excludeI simp: transferMedia_effect with_exclude_def)
next
  case False
  have "ignores_exclude (stream_stage stage)"
  proof (rule ignores_excludeI)
    fix xs eng
    have u: "updateStep Start stage (with_exclude xs eng) =
        with_exclude xs (updateStep Start stage eng)"
      by (simp add: updateStep_def with_exclude_def)
    show "stream_stage stage (with_exclude xs eng) =
        (fst (stream_stage stage eng), with_exclude xs (snd (stream_stage stage eng)))"
      unfolding stream_stage_def u
      by (simp add: ignores_excludeD [OF ignores_exclude_stage_promise]
          split: sum.splits option.splits)
        (simp add: with_exclude_def)
  qed
  moreover from False have "run_stage stage = stream_stage stage"
    by (intro ext run_stage_stream_stage)
  ultimately show ?thesis by simp
qed


lemma ignores_exclude_boostrap: "ignores_exclude boostrap"
  by (rule ignores_excludeI) (simp add: boostrap_def with_exclude_def split: sum.splits)

lemma ignores_exclude_close_engine: "ignores_exclude close_engine"
  by (rule ignores_excludeI) (simp add: close_engine_def with_exclude_def split: sum.splits)

lemma ignores_exclude_valid_transfer: "ignores_exclude valid_transfer"
  by (rule ignores_excludeI)
    (simp add: valid_transfer_def integrityCheck_def and_then_def await_def return_def
      throw_def unable_to_transfer_def with_exclude_def split: sum.splits option.splits)

lemma ignores_exclude_run_steps:
  "(\<And>m. m \<in> set ms \<Longrightarrow> ignores_exclude m) \<Longrightarrow> ignores_exclude (run_steps ms)"
proof (induction ms)
  case Nil
  show ?case by (rule ignores_excludeI) (simp add: return_def)
next
  case (Cons m ms)
  then show ?case by (simp add: ignores_exclude_and_then)
qed

lemma ignores_exclude_transfer_try: "ignores_exclude transfer_try"
  unfolding transfer_try_steps
proof (rule ignores_exclude_run_steps)
  fix m assume "m \<in> set transfer_steps"
  then show "ignores_exclude m"
    using ignores_exclude_run_stage [of Schemas] ignores_exclude_run_stage [of Entities]
      ignores_exclude_run_stage [of Media] ignores_exclude_run_stage [of Links]
      ignores_exclude_run_stage [of Configuration]
    by (auto simp: transfer_steps_def ignores_exclude_boostrap ignores_exclude_close_engine
        ignores_exclude_valid_transfer)
qed

lemma ignores_exclude_transfer: "ignores_exclude transfer"
proof (rule ignores_excludeI)
  fix xs eng
  show "transfer (with_exclude xs eng) =
      (fst (transfer eng), with_exclude xs (snd (transfer eng)))"
    using ignores_excludeD [OF ignores_exclude_transfer_try, of xs eng]
    by (cases "transfer_try eng")
      (simp add: transfer_def with_exclude_def split: outcome.splits)
qed

lemma stage_events_started:
  "(Start, stage) \<in> set (concat (map (\<lambda>s. stage_events s (n s)) stage_order)) \<and>
   (Complete, stage) \<in> set (concat (map (\<lambda>s. stage_events s (n s)) stage_order))"
  by (cases stage) (simp_all add: stage_order_def stage_events_def)

subsection \<open>Runs of steps\<close>

lemma run_steps_append:
  "run_steps (ms @ ns) eng =
     (case run_steps ms eng of
        (Resolves u, eng1) \<Rightarrow> run_steps ns eng1
      | (Rejects e, eng1) \<Rightarrow> (Rejects e, eng1)
      | (Pending e, eng1) \<Rightarrow> (Pending e, eng1))"
  by (induction ms arbitrary: eng)
    (auto simp: return_def and_then_def split: prod.splits outcome.splits)

lemma run_steps_relation:
  assumes refl: "\<And>eng. J eng eng" and trans: "\<And>a b c. J a b \<Longrightarrow> J b c \<Longrightarrow> J a c"
    and steps: "\<And>m eng r eng'. m \<in> set ms \<Longrightarrow> m eng = (r, eng') \<Longrightarrow> J eng eng'"
    and run: "run_steps ms eng = (r, eng')"
  shows "J eng eng'"
  using steps run
proof (induction ms arbitrary: eng)
  case Nil
  then show ?case using refl by (simp add: return_def)
next
  case (Cons m ms)
  obtain r1 eng1 where m: "m eng = (r1, eng1)" by (cases "m eng")
  have j1: "J eng eng1" using Cons.prems(1) [of m eng r1 eng1] m by simp
  show ?case
  proof (cases "r1 = Resolves ()")
    case False
    with m Cons.prems(2) have "eng' = eng1"
      by (cases r1) (simp_all add: and_then_def)
    with j1 show ?thesis by simp
  next
    case True
    with m Cons.prems(2) have "run_steps ms eng1 = (r, eng')" by (simp add: and_then_def)
    have "J eng1 eng'"
    proof (rule Cons.IH)
      show "J a b" if "k \<in> set ms" "k a = (q, b)" for k a q b
        using Cons.prems(1) [of k a q b] that by simp
    qed fact
    with j1 show ?thesis using trans by blast
  qed
qed

lemma no_start_refl: "no_start stage eng eng"
  by (simp add: no_start_def)

lemma no_start_trans: "no_start stage a b \<Longrightarrow> no_start stage b c \<Longrightarrow> no_start stage a c"
  by (auto simp: no_start_def)

lemma no_start_run_stage:
  assumes "run_stage s eng = (r, eng')" and "s \<noteq> stage"
  shows "no_start stage eng eng'"
  using run_stage_effect [OF assms(1)] assms(2)
  by (auto simp: no_start_def)

lemma no_start_before_links:
  assumes "run_steps (take 5 transfer_steps) eng = (r, eng')"
  shows "no_start Links eng eng'"
proof (rule run_steps_relation [OF no_start_refl _ _ assms])
  show "no_start Links a c" if "no_start Links a b" "no_start Links b c" for a b c
    using that by (rule no_start_trans)
next
  fix m eng r eng'
  assume m: "m \<in> set (take 5 transfer_steps)" and r: "m eng = (r, eng')"
  from m consider "m = boostrap" | "m = valid_transfer" | "m = run_stage Schemas"
    | "m = run_stage Entities" | "m = run_stage Media"
    by (auto simp: transfer_steps_def)
  then show "no_start Links eng eng'"
  proof cases
    case 1
    with r boostrap_effect [of eng r eng'] show ?thesis by (simp add: no_start_refl)
  next
    case 2
    with r valid_transfer_effect [of eng r eng'] show ?thesis by (simp add: no_start_def)
  next
    case 3
    with r have "run_stage Schemas eng = (r, eng')" by simp
    then show ?thesis by (rule no_start_run_stage) simp
  next
    case 4
    with r have "run_stage Entities eng = (r, eng')" by simp
    then show ?thesis by (rule no_start_run_stage) simp
  next
    case 5
    with r have "run_stage Media eng = (r, eng')" by simp
    then show ?thesis by (rule no_start_run_stage) simp
  qed
qed

lemma transfer_steps_split:
  "transfer_steps = take 5 transfer_steps @ transferLinks # [transferConfiguration, close_engine]"
  by (simp add: transfer_steps_def)

lemma transfer_Rejects:
  "(transfer eng = (Rejects e, eng')) = (run_steps transfer_steps eng = (Rejects e, eng'))"
  by (cases "transfer_try eng")
    (auto simp: transfer_def transfer_try_steps [symmetric] split: outcome.splits)

lemma transfer_Pending:
  "(transfer eng = (Pending e, eng')) = (run_steps transfer_steps eng = (Pending e, eng'))"
  by (cases "transfer_try eng")
    (auto simp: transfer_def transfer_try_steps [symmetric] split: outcome.splits)

lemma transfer_Resolves:
  "(transfer eng = (Resolves res, eng')) =
     (run_steps transfer_steps eng = (Resolves (), eng') \<and>
      res = \<lparr>source = results (sourceProvider eng'),
             destination = results (destinationProvider eng')\<rparr>)"
  by (cases "transfer_try eng")
    (auto simp: transfer_def transfer_try_steps [symmetric] split: outcome.splits)

lemma transferLinks_absent:
  assumes "streamLinks (sourceProvider eng) = Absent"
  shows "\<exists>x. transferLinks eng = (Rejects x, eng) \<and>
    ((\<forall>e. getLinksStream (destinationProvider eng) \<noteq> Throws e) \<longrightarrow>
       x = missing_stream Links ''source'')"
  using assms
  by (cases "getLinksStream (destinationProvider eng)")
    (simp_all add: transferLinks_def and_then_def await_def throw_def missing_stream_def)

text \<open>Without \<open>streamLinks\<close> a transfer does not resolve and writes no start event of
  the links stage: it rejects at the links stage, or it has stopped before.\<close>

lemma transfer_without_streamLinks:
  assumes "streamLinks (sourceProvider eng) = Absent"
  shows "\<exists>r eng'. transfer eng = (r, eng') \<and> (\<forall>res. r \<noteq> Resolves res) \<and>
           no_start Links eng eng' \<and>
           ((\<exists>u. run_steps (take 5 transfer_steps) eng = (Resolves u, eng')) \<longrightarrow>
              (\<exists>x. r = Rejects x))"
proof -
  obtain r e1 where pre: "run_steps (take 5 transfer_steps) eng = (r, e1)"
    by (cases "run_steps (take 5 transfer_steps) eng")
  note ns = no_start_before_links [OF pre]
  show ?thesis
  proof (cases r)
    case (Rejects x)
    with pre have "run_steps transfer_steps eng = (Rejects x, e1)"
      by (subst transfer_steps_split) (simp add: run_steps_append)
    then have "transfer eng = (Rejects x, e1)" by (simp add: transfer_Rejects)
    with ns pre Rejects show ?thesis by auto
  next
    case (Pending x)
    with pre have "run_steps transfer_steps eng = (Pending x, e1)"
      by (subst transfer_steps_split) (simp add: run_steps_append)
    then have "transfer eng = (Pending x, e1)" by (simp add: transfer_Pending)
    with ns pre Pending show ?thesis by auto
  next
    case (Resolves u)
    from ns assms have "streamLinks (sourceProvider e1) = Absent"
      by (simp add: no_start_def wiring_def)
    from transferLinks_absent [OF this] obtain x where "transferLinks e1 = (Rejects x, e1)"
      by blast
    with pre Resolves have "run_steps transfer_steps eng = (Rejects x, e1)"
      by (subst transfer_steps_split) (simp add: run_steps_append and_then_def)
    then have "transfer eng = (Rejects x, e1)" by (simp add: transfer_Rejects)
    with ns show ?thesis by auto
  qed
qed

subsection \<open>Which errors reject\<close>


lemma valid_transfer_settles: "fst (valid_transfer eng) \<noteq> Pending e"
  by (cases "getMetadata (sourceProvider eng)"; cases "getMetadata (destinationProvider eng)")
    (auto simp: valid_transfer_def integrityCheck_def and_then_def await_def return_def
      throw_def split: option.splits sum.splits)








subsection \<open>Counting with plain keys\<close>

text \<open>Where the value of the aggregate key is a plain key, the bucket of that value is
  created on first use and incremented, counting never throws, and the buckets of a
  stage sum to the items that carry the key.\<close>

lemma map_of_aggregates_val:
  "map_of (own_props (aggregates_val aggs)) v = map_option counters_val (map_of aggs v)"
  by (simp add: aggregates_val_def map_of_map)

lemma has_bucket_present: "map_of aggs v = Some b \<Longrightarrow> has v (aggregates_val aggs)"
  by (simp add: has_def castPath_def isKey_def map_of_aggregates_val)


lemma has_bucket_plain:
  "isPlainProp v \<or> \<not> isDeepProp v \<Longrightarrow> has v (aggregates_val aggs) = (map_of aggs v \<noteq> None)"
  by (cases "map_of aggs v") (auto simp: has_def castPath_def isKey_def map_of_aggregates_val)

lemma increment_aggregate_plain:
  assumes "plain_key v"
  shows "increment_aggregate v n aggs =
    Inr (AList.update v
          (add_item n (case map_of aggs v of None \<Rightarrow> zero_counters | Some b \<Rightarrow> b)) aggs)"
proof (cases "map_of aggs v")
  case None
  with assms have "\<not> has v (aggregates_val aggs)"
    by (simp add: plain_key_def has_bucket_plain)
  with assms None show ?thesis
    by (simp add: increment_aggregate_def plain_key_def Let_def update_conv')
next
  case (Some b)
  with assms has_bucket_present [OF Some] show ?thesis
    by (simp add: increment_aggregate_def plain_key_def Let_def)
qed

lemma sum_update:
  fixes f :: "counters \<Rightarrow> nat"
  assumes "distinct (map fst aggs)"
  shows "sum_list (map (\<lambda>(k, c). f c) (AList.update v b aggs)) +
           (case map_of aggs v of None \<Rightarrow> 0 | Some c \<Rightarrow> f c) =
         sum_list (map (\<lambda>(k, c). f c) aggs) + f b"
  using assms
proof (induction aggs)
  case Nil
  then show ?case by simp
next
  case (Cons a aggs)
  obtain k c where a: "a = (k, c)" by (cases a)
  show ?case
  proof (cases "k = v")
    case True
    with Cons.prems a have "map_of aggs v = None"
      by (simp add: map_of_eq_None_iff)
    with True a show ?thesis by simp
  next
    case False
    with Cons a show ?thesis by simp
  qed
qed

lemma increment_aggregate_sums:
  assumes "plain_key v" and "distinct (map fst aggs)"
    and "increment_aggregate v n aggs = Inr aggs'"
  shows "sum_list (map (\<lambda>(k, c). count c) aggs') = sum_list (map (\<lambda>(k, c). count c) aggs) + 1"
    and "sum_list (map (\<lambda>(k, c). bytes c) aggs') = sum_list (map (\<lambda>(k, c). bytes c) aggs) + n"
    and "distinct (map fst aggs')"
proof -
  let ?b = "case map_of aggs v of None \<Rightarrow> zero_counters | Some b \<Rightarrow> b"
  from assms(3) increment_aggregate_plain [OF assms(1), of n aggs]
  have e: "aggs' = AList.update v (add_item n ?b) aggs" by simp
  from sum_update [OF assms(2), of count v "add_item n ?b"] e
  show "sum_list (map (\<lambda>(k, c). count c) aggs') = sum_list (map (\<lambda>(k, c). count c) aggs) + 1"
    by (simp add: add_item_def zero_counters_def split: option.splits)
  from sum_update [OF assms(2), of bytes v "add_item n ?b"] e
  show "sum_list (map (\<lambda>(k, c). bytes c) aggs') = sum_list (map (\<lambda>(k, c). bytes c) aggs) + n"
    by (simp add: add_item_def zero_counters_def split: option.splits)
  from e assms(2) show "distinct (map fst aggs')"
    by (simp add: distinct_update)
qed


lemma countRecorder_plain:
  assumes "carries k d \<longrightarrow> plain_key (prop_key d k)"
    and "distinct (map fst (buckets_of stage eng))"
  shows "\<exists>eng'. countRecorder stage (Some k) d eng = (Inr d, eng') \<and>
           distinct (map fst (buckets_of stage eng')) \<and>
           aggregate_count stage eng' =
             aggregate_count stage eng + (if carries k d then 1 else 0) \<and>
           aggregate_bytes stage eng' =
             aggregate_bytes stage eng + (if carries k d then length (json d) else 0)"
proof (cases "carries k d")
  case False
  then show ?thesis using assms(2)
    by (auto simp: countRecorder_def incrementTransferProgress_def carries_def Let_def
        buckets_of_def aggregate_count_def aggregate_bytes_def split: option.splits)
next
  case True
  let ?aggs = "buckets_of stage eng"
  from True assms(1) have pk: "plain_key (prop_key d k)" by simp
  obtain aggs' where i: "increment_aggregate (prop_key d k) (length (json d)) ?aggs = Inr aggs'"
    using increment_aggregate_plain [OF pk] by simp
  note s = increment_aggregate_sums [OF pk assms(2) i]
  have b: "(case aggregates (case transferProgress eng stage of
              None \<Rightarrow> \<lparr>count = 0, bytes = 0, aggregates = None\<rparr> | Some e \<Rightarrow> e) of
            None \<Rightarrow> [] | Some a \<Rightarrow> a) = ?aggs"
    by (simp add: buckets_of_def split: option.splits)
  from True i b s show ?thesis
    by (simp add: countRecorder_def incrementTransferProgress_def carries_def Let_def
        buckets_of_def aggregate_count_def aggregate_bytes_def)
qed

lemma pipe_plain:
  assumes "\<forall>d\<in>set ds. carries k d \<longrightarrow> plain_key (prop_key d k)"
    and "distinct (map fst (buckets_of stage eng))"
    and "pipe stage (Some k) c out i ds eng = (r, eng')"
  shows "(r = Resolves () \<or> (\<exists>n e. breaks_after out = Some (n, e) \<and> r = Rejects e)) \<and>
         (r = Resolves () \<longrightarrow>
            distinct (map fst (buckets_of stage eng')) \<and>
            aggregate_count stage eng' =
              aggregate_count stage eng + length (carrying k ds) \<and>
            aggregate_bytes stage eng' =
              aggregate_bytes stage eng + sum_list (map (\<lambda>d. length (json d)) (carrying k ds)))"
  using assms
proof (induction ds arbitrary: eng i)
  case Nil
  then show ?case by (auto simp: carrying_def)
next
  case (Cons d ds)
  from Cons.prems(1) have "carries k d \<longrightarrow> plain_key (prop_key d k)" by simp
  from countRecorder_plain [OF this Cons.prems(2)] obtain eng1 where
    c: "countRecorder stage (Some k) d eng = (Inr d, eng1)"
    and d1: "distinct (map fst (buckets_of stage eng1))"
    and a1: "aggregate_count stage eng1 =
             aggregate_count stage eng + (if carries k d then 1 else 0)"
    and b1: "aggregate_bytes stage eng1 =
             aggregate_bytes stage eng + (if carries k d then length (json d) else 0)"
    by blast
  show ?case
  proof (cases "breaks_at out i")
    case (Some e)
    with Cons.prems(3) show ?thesis by (auto simp: breaks_at_iff)
  next
    case None
    with Cons.prems(3) c have "pipe stage (Some k) c out (Suc i) ds eng1 = (r, eng')"
      by simp
    from Cons.IH [OF _ d1 this] Cons.prems(1) a1 b1 show ?thesis
      by (auto simp: carrying_def)
  qed
qed

lemma updateStep_buckets:
  "buckets_of stage (updateStep type s eng) = buckets_of stage eng"
  "aggregate_count stage (updateStep type s eng) = aggregate_count stage eng"
  "aggregate_bytes stage (updateStep type s eng) = aggregate_bytes stage eng"
  by (simp_all add: updateStep_def buckets_of_def aggregate_count_def aggregate_bytes_def)

lemma transferEntities_aggregates:
  assumes "transferEntities eng = (Resolves (), eng')"
    and "streamEntities (sourceProvider eng) = Returns inStream"
    and "\<forall>d\<in>set (chunks inStream). carries ''type'' d \<longrightarrow> plain_key (prop_key d ''type'')"
    and "distinct (map fst (buckets_of Entities eng))"
  shows "aggregate_count Entities eng' =
           aggregate_count Entities eng + length (carrying ''type'' (chunks inStream))"
    and "aggregate_bytes Entities eng' =
           aggregate_bytes Entities eng +
           sum_list (map (\<lambda>d. length (json d)) (carrying ''type'' (chunks inStream)))"
proof -
  from assms(1) have "stream_stage Entities eng = (Resolves (), eng')"
    using run_stage_stream_stage [of Entities eng] by simp
  with assms(2) obtain out where
    sp: "stage_promise Entities (Some ''type'') inStream out (updateStep Start Entities eng)
      = (Resolves (), eng')"
    by (cases "getEntitiesStream (destinationProvider eng)")
      (auto simp: stream_stage_def)
  obtain r1 eng1 where p: "pipe Entities (Some ''type'') (rethrows inStream) out 0
      (chunks inStream) (updateStep Start Entities eng) = (r1, eng1)"
    by (cases "pipe Entities (Some ''type'') (rethrows inStream) out 0 (chunks inStream)
      (updateStep Start Entities eng)")
  with sp have r1: "r1 = Resolves ()" and e: "eng' = updateStep Complete Entities eng1"
    by (auto simp: stage_promise_def split: outcome.splits option.splits)
  from assms(4) have "distinct (map fst (buckets_of Entities (updateStep Start Entities eng)))"
    by (simp add: updateStep_buckets)
  from pipe_plain [OF assms(3) this p] r1 e
  show "aggregate_count Entities eng' =
           aggregate_count Entities eng + length (carrying ''type'' (chunks inStream))"
    and "aggregate_bytes Entities eng' =
           aggregate_bytes Entities eng +
           sum_list (map (\<lambda>d. length (json d)) (carrying ''type'' (chunks inStream)))"
    by (simp_all add: updateStep_buckets)
qed

text \<open>With plain keys the counting throws nothing.\<close>

lemma increment_plain:
  assumes "carries k d \<longrightarrow> plain_key (prop_key d k)"
  shows "fst (incrementTransferProgress stage d (Some k) p) = Inr ()"
  using assms
  by (auto simp: incrementTransferProgress_def Let_def carries_def increment_aggregate_plain)

lemma count_all_plain:
  assumes "\<forall>d\<in>set ds. carries k d \<longrightarrow> plain_key (prop_key d k)"
  shows "fst (count_all stage (Some k) ds p) = Inr ()"
  using assms
proof (induction ds arbitrary: p)
  case Nil
  show ?case by simp
next
  case (Cons d ds)
  from Cons.prems have "carries k d \<longrightarrow> plain_key (prop_key d k)" by simp
  from increment_plain [OF this, of stage p]
  obtain p' where "incrementTransferProgress stage d (Some k) p = (Inr (), p')"
    by (cases "incrementTransferProgress stage d (Some k) p") auto
  with Cons.IH [of p'] Cons.prems show ?case by simp
qed

lemma counts_cleanly_plain:
  assumes "\<forall>d\<in>set (chunks inStream). carries ''type'' d \<longrightarrow> plain_key (prop_key d ''type'')"
  shows "counts_cleanly Entities inStream out eng"
proof -
  from assms have "\<forall>d\<in>set (take (counted_before out (chunks inStream)) (chunks inStream)).
      carries ''type'' d \<longrightarrow> plain_key (prop_key d ''type'')"
    by (auto dest: in_set_takeD)
  from count_all_plain [OF this] show ?thesis
    by (simp add: counts_cleanly_def)
qed
subsection \<open>Claim C1: the order of the stages\<close>

text \<open>
  Claim C1, as amended. A transfer that succeeds has run the five stages in the order
  schemas, entities, media, links, configuration: the events it has written are the
  events of the schemas stage, then those of the entities stage, then start and complete
  of the media stage, then the events of the links stage, then those of the configuration
  stage, each stage with one progress event for each chunk of its source stream. No
  stage's events stand between those of another.
\<close>

theorem transfer_stage_order:
  assumes "transfer eng = (Resolves res, eng')"
  shows "progressStream eng' = progressStream eng @
           concat (map (\<lambda>stage. stage_events stage
                          (stream_length (source_stream stage (sourceProvider eng))))
                       [Schemas, Entities, Media, Links, Configuration])"
  using transfer_success_events(1) [OF assms] by (simp add: stage_order_def)

theorem transfer_stage_order_witness:
  "fst (transfer example_engine) =
     Resolves \<lparr>source = ''source results'', destination = ''destination results''\<rparr> \<and>
   progressStream (snd (transfer example_engine)) =
     [(Start, Schemas), (Progress, Schemas), (Complete, Schemas),
      (Start, Entities), (Progress, Entities), (Progress, Entities), (Progress, Entities),
      (Complete, Entities),
      (Start, Media), (Complete, Media),
      (Start, Links), (Progress, Links), (Complete, Links),
      (Start, Configuration), (Complete, Configuration)]"
proof -
  have r: "fst (transfer example_engine) =
      Resolves \<lparr>source = ''source results'', destination = ''destination results''\<rparr>"
    by code_simp
  then have h: "transfer example_engine =
      (Resolves \<lparr>source = ''source results'', destination = ''destination results''\<rparr>,
       snd (transfer example_engine))"
    by (metis prod.collapse)
  have "progressStream example_engine @
           concat (map (\<lambda>stage. stage_events stage
                          (stream_length (source_stream stage (sourceProvider example_engine))))
                       [Schemas, Entities, Media, Links, Configuration]) =
     [(Start, Schemas), (Progress, Schemas), (Complete, Schemas),
      (Start, Entities), (Progress, Entities), (Progress, Entities), (Progress, Entities),
      (Complete, Entities),
      (Start, Media), (Complete, Media),
      (Start, Links), (Progress, Links), (Complete, Links),
      (Start, Configuration), (Complete, Configuration)]"
    by code_simp
  with transfer_stage_order [OF h] r show ?thesis by simp
qed

text \<open>Claim C1 as stated puts the links stage before the media stage. On the example
  engine the transfer succeeds and its events are not those of that order.\<close>

theorem spec_stage_order_counterexample:
  "fst (transfer example_engine) =
     Resolves \<lparr>source = ''source results'', destination = ''destination results''\<rparr> \<and>
   progressStream (snd (transfer example_engine)) \<noteq>
     concat (map (\<lambda>stage. stage_events stage
                    (stream_length (source_stream stage (sourceProvider example_engine))))
                 spec_stage_order) \<and>
   progressStream (snd (transfer example_engine)) ! 8 = (Start, Media) \<and>
   progressStream (snd (transfer example_engine)) ! 10 = (Start, Links)"
  by code_simp

subsection \<open>Claim C2: the errors of a transfer\<close>



subsection \<open>Claim C3: the exclude option\<close>

text \<open>
  Claim C3, as amended. \<open>transfer\<close> never reads \<open>exclude\<close>: an engine constructed with
  any other exclude set returns the same result and leaves the same events and
  counters, and a transfer that succeeds has run all five stages, those in \<open>exclude\<close>
  too, each with its start and its complete event.
\<close>

theorem transfer_ignores_exclude:
  "transfer (eng\<lparr>options := (options eng)\<lparr>exclude := xs\<rparr>\<rparr>) =
     (fst (transfer eng), (snd (transfer eng))\<lparr>options := (options (snd (transfer eng)))\<lparr>exclude := xs\<rparr>\<rparr>) \<and>
   (\<forall>res eng'. transfer eng = (Resolves res, eng') \<longrightarrow>
      (\<forall>stage. (Start, stage) \<in> set (drop (length (progressStream eng)) (progressStream eng')) \<and>
                (Complete, stage) \<in> set (drop (length (progressStream eng)) (progressStream eng'))))"
proof (intro conjI allI impI)
  show "transfer (eng\<lparr>options := (options eng)\<lparr>exclude := xs\<rparr>\<rparr>) =
     (fst (transfer eng), (snd (transfer eng))\<lparr>options := (options (snd (transfer eng)))\<lparr>exclude := xs\<rparr>\<rparr>)"
    using ignores_excludeD [OF ignores_exclude_transfer, of xs eng]
    by (simp add: with_exclude_def)
next
  fix res eng' stage
  assume t: "transfer eng = (Resolves res, eng')"
  show "(Start, stage) \<in> set (drop (length (progressStream eng)) (progressStream eng'))"
    using transfer_success_events(1) [OF t] stage_events_started [of stage] by simp
  show "(Complete, stage) \<in> set (drop (length (progressStream eng)) (progressStream eng'))"
    using transfer_success_events(1) [OF t] stage_events_started [of stage] by simp
qed

theorem transfer_ignores_exclude_witness:
  "fst (transfer (example_engine\<lparr>options := (options example_engine)\<lparr>exclude := [Schemas, Media]\<rparr>\<rparr>)) =
     Resolves \<lparr>source = ''source results'', destination = ''destination results''\<rparr> \<and>
   (Start, Media) \<in> set (progressStream (snd (transfer example_engine)))"
proof -
  have r: "fst (transfer example_engine) =
      Resolves \<lparr>source = ''source results'', destination = ''destination results''\<rparr>"
    by code_simp
  then have h: "transfer example_engine =
      (Resolves \<lparr>source = ''source results'', destination = ''destination results''\<rparr>,
       snd (transfer example_engine))"
    by (metis prod.collapse)
  have p: "progressStream example_engine = []"
    by (simp add: example_engine_def createTransferEngine_def)
  from transfer_ignores_exclude [where eng = example_engine and xs = "[Schemas, Media]"] h r p
  show ?thesis by auto
qed

text \<open>Claim C3 as stated fails on an engine constructed with \<open>exclude\<close> holding
  \<open>schemas\<close> and \<open>media\<close>: its transfer starts and completes both stages.\<close>

theorem excluded_stage_runs_counterexample:
  "Schemas \<in> set (exclude (options (with_exclude [Schemas, Media] example_engine))) \<and>
   (Start, Schemas) \<in> set (progressStream (snd (transfer (with_exclude [Schemas, Media] example_engine)))) \<and>
   (Complete, Schemas) \<in> set (progressStream (snd (transfer (with_exclude [Schemas, Media] example_engine))))"
  by code_simp

subsection \<open>Claim C4: the matching strategies\<close>

text \<open>
  Claim C4, as amended. For two version strings that are present (not empty): under
  \<open>exact\<close> the check passes iff the strings are identical; under \<open>major\<close> iff the first
  tokens are equal; under \<open>minor\<close> iff the source version has at least two tokens and
  its first two are the first two of the destination; under \<open>patch\<close> iff it has at
  least three and its first three are the first three of the destination; under
  \<open>ignore\<close> always. Every other outcome throws the error that names the strategy and
  both versions.
\<close>

theorem assertStrapiVersionIntegrity_passes_iff:
  assumes "sv \<noteq> []" and "dv \<noteq> []"
  shows "(assertStrapiVersionIntegrity strat (Some sv) (Some dv) = Inr ()) =
           (case strat of
              Ignore \<Rightarrow> True
            | Exact \<Rightarrow> sv = dv
            | Major \<Rightarrow> take 1 (split CHR ''.'' sv) = take 1 (split CHR ''.'' dv)
            | Minor \<Rightarrow> 2 \<le> length (split CHR ''.'' sv) \<and>
                        take 2 (split CHR ''.'' sv) = take 2 (split CHR ''.'' dv)
            | Patch \<Rightarrow> 3 \<le> length (split CHR ''.'' sv) \<and>
                        take 3 (split CHR ''.'' sv) = take 3 (split CHR ''.'' dv)) \<and>
         (assertStrapiVersionIntegrity strat (Some sv) (Some dv) = Inr () \<or>
          assertStrapiVersionIntegrity strat (Some sv) (Some dv) =
            Inl (Error (mismatch_message strat sv dv)))"
  using version_check_passes [OF assms, of strat] version_check_outcomes [of strat sv dv]
  by blast

text \<open>The four examples of the specification.\<close>

theorem assertStrapiVersionIntegrity_passes_iff_witness:
  "assertStrapiVersionIntegrity Exact (Some ''1.2.3'') (Some ''1.2.3'') = Inr () \<and>
   assertStrapiVersionIntegrity Exact (Some ''1.2.3'') (Some ''1.2.4'') =
     Inl (Error (mismatch_message Exact ''1.2.3'' ''1.2.4'')) \<and>
   assertStrapiVersionIntegrity Minor (Some ''1.2.3'') (Some ''1.2.9'') = Inr () \<and>
   assertStrapiVersionIntegrity Minor (Some ''1.2.3'') (Some ''1.3.0'') =
     Inl (Error (mismatch_message Minor ''1.2.3'' ''1.3.0''))"
  using assertStrapiVersionIntegrity_passes_iff [of "''1.2.3''" "''1.2.3''" Exact]
    assertStrapiVersionIntegrity_passes_iff [of "''1.2.3''" "''1.2.4''" Exact]
    assertStrapiVersionIntegrity_passes_iff [of "''1.2.3''" "''1.2.9''" Minor]
    assertStrapiVersionIntegrity_passes_iff [of "''1.2.3''" "''1.3.0''" Minor]
  by auto

text \<open>Claim C4 as stated fails on the versions \<open>1\<close> and \<open>1\<close> under \<open>minor\<close>: their tokens
  are equal position by position, and the check throws, because the second token of
  the source does not exist.\<close>

theorem spec_check_minor_counterexample:
  "spec_check Minor ''1'' ''1'' \<and>
   assertStrapiVersionIntegrity Minor (Some ''1'') (Some ''1'') =
     Inl (Error (mismatch_message Minor ''1'' ''1''))"
  by (simp add: spec_token_def assertStrapiVersionIntegrity_def version_text_def truthy_at_def)

subsection \<open>Claim C5: missing streams\<close>

text \<open>
  Claim C5, as amended. A streaming stage whose source provider has no method for its
  stream, while the call for the destination stream does not reject, fails with the
  error \<open>Unable to transfer <stage>, source stream is missing\<close>; one whose source
  stream is there and whose destination provider has no method for its stream fails
  with \<open>Unable to transfer <stage>, destination stream is missing\<close>. In both cases
  the engine is left as it was: no start event is written and nothing is counted.
  With a source provider that has no \<open>streamLinks\<close>, \<open>transfer\<close> does not resolve and
  writes no start event of the links stage; it rejects whenever the steps before the
  links stage settle, and when they succeed and \<open>getLinksStream\<close> does not reject, the
  error is the one naming links and the source.
\<close>

theorem missing_stream_fails_before_start:
  "(stage \<noteq> Media \<and> source_stream stage (sourceProvider eng) = Absent \<and>
      (\<forall>e. destination_stream stage (destinationProvider eng) \<noteq> Throws e) \<longrightarrow>
    run_stage stage eng = (Rejects (missing_stream stage ''source''), eng)) \<and>
   (stage \<noteq> Media \<and> (\<exists>i. source_stream stage (sourceProvider eng) = Returns i) \<and>
      destination_stream stage (destinationProvider eng) = Absent \<longrightarrow>
    run_stage stage eng = (Rejects (missing_stream stage ''destination''), eng)) \<and>
   (streamLinks (sourceProvider eng) = Absent \<longrightarrow>
      (\<forall>res. fst (transfer eng) \<noteq> Resolves res) \<and>
      ((\<forall>x. fst (run_steps (take 5 transfer_steps) eng) \<noteq> Pending x) \<longrightarrow>
         (\<exists>e. fst (transfer eng) = Rejects e)) \<and>
      (Start, Links) \<notin> set (drop (length (progressStream eng))
                                 (progressStream (snd (transfer eng))))) \<and>
   (streamLinks (sourceProvider eng) = Absent \<and>
      (\<forall>e. getLinksStream (destinationProvider eng) \<noteq> Throws e) \<and>
      run_steps (take 5 transfer_steps) eng = (Resolves (), eng1) \<longrightarrow>
    transfer eng = (Rejects (missing_stream Links ''source''), eng1))"
proof (intro conjI impI)
  assume a: "stage \<noteq> Media \<and> source_stream stage (sourceProvider eng) = Absent \<and>
      (\<forall>e. destination_stream stage (destinationProvider eng) \<noteq> Throws e)"
  then show "run_stage stage eng = (Rejects (missing_stream stage ''source''), eng)"
    by (simp add: run_stage_calls(3))
next
  assume a: "stage \<noteq> Media \<and> (\<exists>i. source_stream stage (sourceProvider eng) = Returns i) \<and>
      destination_stream stage (destinationProvider eng) = Absent"
  then show "run_stage stage eng = (Rejects (missing_stream stage ''destination''), eng)"
    by (auto simp: run_stage_calls(4))
next
  assume a: "streamLinks (sourceProvider eng) = Absent"
  from transfer_without_streamLinks [OF a] obtain r eng' where
    t: "transfer eng = (r, eng')" and nr: "\<forall>res. r \<noteq> Resolves res"
    and n: "no_start Links eng eng'" by blast
  from t nr show "\<forall>res. fst (transfer eng) \<noteq> Resolves res" by simp
  from t n show "(Start, Links) \<notin> set (drop (length (progressStream eng))
                                 (progressStream (snd (transfer eng))))"
    by (auto simp: no_start_def)
next
  assume a: "streamLinks (sourceProvider eng) = Absent"
    and s: "\<forall>x. fst (run_steps (take 5 transfer_steps) eng) \<noteq> Pending x"
  obtain r e1 where pre: "run_steps (take 5 transfer_steps) eng = (r, e1)"
    by (cases "run_steps (take 5 transfer_steps) eng")
  show "\<exists>e. fst (transfer eng) = Rejects e"
  proof (cases r)
    case (Rejects x)
    with pre have "run_steps transfer_steps eng = (Rejects x, e1)"
      by (subst transfer_steps_split) (simp add: run_steps_append)
    then show ?thesis by (simp add: transfer_Rejects [symmetric])
  next
    case (Pending x)
    with pre s show ?thesis by simp
  next
    case (Resolves u)
    from no_start_before_links [OF pre] a have "streamLinks (sourceProvider e1) = Absent"
      by (simp add: no_start_def wiring_def)
    from transferLinks_absent [OF this] obtain x where "transferLinks e1 = (Rejects x, e1)"
      by blast
    with pre Resolves have "run_steps transfer_steps eng = (Rejects x, e1)"
      by (subst transfer_steps_split) (simp add: run_steps_append and_then_def)
    then show ?thesis by (simp add: transfer_Rejects [symmetric])
  qed
next
  assume a: "streamLinks (sourceProvider eng) = Absent \<and>
      (\<forall>e. getLinksStream (destinationProvider eng) \<noteq> Throws e) \<and>
      run_steps (take 5 transfer_steps) eng = (Resolves (), eng1)"
  then have pre: "run_steps (take 5 transfer_steps) eng = (Resolves (), eng1)" by simp
  from no_start_before_links [OF pre] a
  have "streamLinks (sourceProvider eng1) = Absent"
    "\<forall>e. getLinksStream (destinationProvider eng1) \<noteq> Throws e"
    by (simp_all add: no_start_def wiring_def)
  with transferLinks_absent [of eng1]
  have "transferLinks eng1 = (Rejects (missing_stream Links ''source''), eng1)" by auto
  with pre have "run_steps transfer_steps eng =
      (Rejects (missing_stream Links ''source''), eng1)"
    by (subst transfer_steps_split) (simp add: run_steps_append and_then_def)
  then show "transfer eng = (Rejects (missing_stream Links ''source''), eng1)"
    by (simp add: transfer_Rejects)
qed

theorem missing_stream_fails_before_start_witness:
  "run_stage Links no_links_engine =
     (Rejects (Error ''Unable to transfer links, source stream is missing''), no_links_engine) \<and>
   run_stage Configuration no_sink_engine =
     (Rejects (Error ''Unable to transfer configuration, destination stream is missing''),
      no_sink_engine) \<and>
   fst (transfer no_links_engine) =
     Rejects (Error ''Unable to transfer links, source stream is missing'') \<and>
   (Start, Links) \<notin> set (progressStream (snd (transfer no_links_engine))) \<and>
   (Complete, Media) \<in> set (progressStream (snd (transfer no_links_engine)))"
proof -
  have h1: "Links \<noteq> Media \<and> source_stream Links (sourceProvider no_links_engine) = Absent \<and>
      (\<forall>e. destination_stream Links (destinationProvider no_links_engine) \<noteq> Throws e)"
    by (simp add: no_links_engine_def createTransferEngine_def example_destination_def)
  have h2: "Configuration \<noteq> Media \<and>
      (\<exists>i. source_stream Configuration (sourceProvider no_sink_engine) = Returns i) \<and>
      destination_stream Configuration (destinationProvider no_sink_engine) = Absent"
    by (simp add: no_sink_engine_def createTransferEngine_def example_source_def)
  have h3: "streamLinks (sourceProvider no_links_engine) = Absent"
    by (simp add: no_links_engine_def createTransferEngine_def)
  have "fst (run_steps (take 5 transfer_steps) no_links_engine) = Resolves ()"
    by code_simp
  then have h4: "run_steps (take 5 transfer_steps) no_links_engine =
      (Resolves (), snd (run_steps (take 5 transfer_steps) no_links_engine))"
    by (metis prod.collapse)
  have m: "missing_stream Links ''source'' =
      Error ''Unable to transfer links, source stream is missing''"
    "missing_stream Configuration ''destination'' =
      Error ''Unable to transfer configuration, destination stream is missing''"
    by (simp_all add: missing_stream_def)
  have p: "progressStream no_links_engine = []"
    by (simp add: no_links_engine_def createTransferEngine_def)
  have c: "(Complete, Media) \<in> set (progressStream (snd (transfer no_links_engine)))"
    by code_simp
  note w1 = missing_stream_fails_before_start [where stage = Links and eng = no_links_engine
      and ?eng1.0 = "snd (run_steps (take 5 transfer_steps) no_links_engine)"]
  note w2 = missing_stream_fails_before_start [where stage = Configuration
      and eng = no_sink_engine and ?eng1.0 = no_sink_engine]
  from w1 h1 have a1: "run_stage Links no_links_engine =
      (Rejects (missing_stream Links ''source''), no_links_engine)" by blast
  from w2 h2 have a2: "run_stage Configuration no_sink_engine =
      (Rejects (missing_stream Configuration ''destination''), no_sink_engine)" by blast
  from w1 h3 have a3: "(Start, Links) \<notin> set (drop (length (progressStream no_links_engine))
      (progressStream (snd (transfer no_links_engine))))" by blast
  from w1 h1 h3 h4 have a4: "transfer no_links_engine =
      (Rejects (missing_stream Links ''source''),
       snd (run_steps (take 5 transfer_steps) no_links_engine))" by simp
  from a1 a2 a3 a4 c show ?thesis by (simp add: m p)
qed

text \<open>Claim C5 as stated fails in two ways. With a source provider without
  \<open>streamLinks\<close> whose destination rejects the call of \<open>getLinksStream\<close>, the links
  stage rejects with the destination's error, which names neither the stage nor a
  side: both calls are made before the streams are looked at. And with a source
  provider that has neither \<open>streamLinks\<close> nor \<open>streamSchemas\<close>, \<open>transfer\<close> rejects in
  the schemas stage, with the error that names schemas.\<close>

theorem missing_stream_error_counterexample:
  "streamLinks (sourceProvider no_links_rejecting_engine) = Absent \<and>
   fst (transferLinks no_links_rejecting_engine) = Rejects (Error ''archive is read-only'') \<and>
   fst (transfer no_links_rejecting_engine) = Rejects (Error ''archive is read-only'') \<and>
   streamLinks (sourceProvider no_schemas_no_links_engine) = Absent \<and>
   fst (transfer no_schemas_no_links_engine) =
     Rejects (Error ''Unable to transfer schemas, source stream is missing'')"
  by code_simp

subsection \<open>Claim C6: counting an item\<close>

text \<open>
  Claim C6 fails on the code. After an entity of type \<open>a\<close> has been counted, an entity
  of type \<open>a.count\<close> carries the key \<open>type\<close>, yet no bucket \<open>a.count\<close> is created for
  it: \<open>_.has\<close> reads \<open>a.count\<close> as the path to the counter of the bucket \<open>a\<close>, finds
  it, and the increment of the missing bucket throws. The counters of the stage have
  been incremented by then. What holds is in the lemmas above: the stage's count
  rises by one and its bytes by the length of the item's text on every call
  (\<open>increment_counts\<close>), and for a plain key the bucket is created on first use and
  incremented by the same amounts (\<open>increment_aggregate_plain\<close>).
\<close>

theorem incrementTransferProgress_path_like_value:
  "fst (incrementTransferProgress Entities item_a (Some ''type'') Map.empty) = Inr () \<and>
   progress_after_a Entities =
     Some \<lparr>count = 1, bytes = 12, aggregates = Some [(''a'', \<lparr>count = 1, bytes = 12\<rparr>)]\<rparr> \<and>
   has ''type'' (item_val item_a_count) \<and>
   prop_key item_a_count ''type'' = ''a.count'' \<and>
   has ''a.count'' (aggregates_val [(''a'', \<lparr>count = 1, bytes = 12\<rparr>)]) \<and>
   fst (incrementTransferProgress Entities item_a_count (Some ''type'') progress_after_a) =
     Inl (TypeError ''Cannot read properties of undefined (reading 'count')'') \<and>
   snd (incrementTransferProgress Entities item_a_count (Some ''type'') progress_after_a) Entities =
     Some \<lparr>count = 2, bytes = 30, aggregates = Some [(''a'', \<lparr>count = 1, bytes = 12\<rparr>)]\<rparr>"
  by code_simp

subsection \<open>Claim C7: the sums of the aggregate buckets\<close>

text \<open>
  Claim C7 fails on the code. A source that streams the entities of type \<open>a\<close> and
  \<open>a.count\<close> leaves the entities stage with a count of two items, both carrying the
  key \<open>type\<close>, and buckets that sum to one. A source that streams two entities of
  type \<open>__proto__\<close> completes the entities stage with a count of two and no bucket
  at all. Where every item's type is a plain key the sums are right
  (\<open>transferEntities_aggregates\<close> above).
\<close>

theorem aggregates_miss_items:
  "fst (transfer path_value_engine) =
     Pending (TypeError ''Cannot read properties of undefined (reading 'count')'') \<and>
   length (carrying ''type'' [item_a, item_a_count]) = 2 \<and>
   count_of Entities (snd (transfer path_value_engine)) = 2 \<and>
   aggregate_count Entities (snd (transfer path_value_engine)) = 1 \<and>
   bytes_of Entities (snd (transfer path_value_engine)) = 30 \<and>
   aggregate_bytes Entities (snd (transfer path_value_engine)) = 12 \<and>
   fst (transferEntities proto_value_engine) = Resolves () \<and>
   length (carrying ''type'' [item_proto, item_proto]) = 2 \<and>
   count_of Entities (snd (transferEntities proto_value_engine)) = 2 \<and>
   aggregate_count Entities (snd (transferEntities proto_value_engine)) = 0"
  by code_simp

subsection \<open>Claim C8: the events of a stage\<close>



subsection \<open>Claim C9: the media stage\<close>

text \<open>
  Claim C9. \<open>transferMedia\<close> always succeeds. It writes the start event of the media
  stage and directly after it the complete event, warns on the console that it is not
  implemented, reads no stream of either provider and leaves \<open>transferProgress\<close> as
  it was: no entry for the media stage appears and no counter of any stage changes.
\<close>

theorem transferMedia_stub:
  "fst (transferMedia eng) = Resolves () \<and>
   progressStream (snd (transferMedia eng)) =
     progressStream eng @ [(Start, Media), (Complete, Media)] \<and>
   console_output (snd (transferMedia eng)) =
     console_output eng @ [(''warn'', [''transferMedia not yet implemented''])] \<and>
   transferProgress (snd (transferMedia eng)) = transferProgress eng \<and>
   sourceProvider (snd (transferMedia eng)) = sourceProvider eng \<and>
   destinationProvider (snd (transferMedia eng)) = destinationProvider eng \<and>
   options (snd (transferMedia eng)) = options eng"
  by (simp add: transferMedia_def updateStep_def Let_def)

theorem transferMedia_stub_witness:
  "fst (transferMedia example_engine) = Resolves () \<and>
   progressStream (snd (transferMedia example_engine)) = [(Start, Media), (Complete, Media)] \<and>
   console_output (snd (transferMedia example_engine)) =
     [(''warn'', [''transferMedia not yet implemented''])] \<and>
   transferProgress (snd (transferMedia example_engine)) Media = None"
  using transferMedia_stub [of example_engine]
  by (simp add: example_engine_def createTransferEngine_def)

subsection \<open>Claim C10: short and identical versions\<close>

text \<open>
  Claim C10, as amended. With both versions present, the check under \<open>minor\<close> throws
  for every source version of fewer than two tokens, and under \<open>patch\<close> for every
  source version of fewer than three, whatever the destination version is, also when
  the two are identical. On identical versions the strategies \<open>ignore\<close>, \<open>exact\<close> and
  \<open>major\<close> always pass.
\<close>

theorem version_check_on_short_and_identical_versions:
  "(sv \<noteq> [] \<and> dv \<noteq> [] \<and> length (split CHR ''.'' sv) < 2 \<longrightarrow>
      assertStrapiVersionIntegrity Minor (Some sv) (Some dv) =
        Inl (Error (mismatch_message Minor sv dv))) \<and>
   (sv \<noteq> [] \<and> dv \<noteq> [] \<and> length (split CHR ''.'' sv) < 3 \<longrightarrow>
      assertStrapiVersionIntegrity Patch (Some sv) (Some dv) =
        Inl (Error (mismatch_message Patch sv dv))) \<and>
   (v \<noteq> [] \<longrightarrow>
      assertStrapiVersionIntegrity Ignore (Some v) (Some v) = Inr () \<and>
      assertStrapiVersionIntegrity Exact (Some v) (Some v) = Inr () \<and>
      assertStrapiVersionIntegrity Major (Some v) (Some v) = Inr ())"
proof (intro conjI impI)
  assume a: "sv \<noteq> [] \<and> dv \<noteq> [] \<and> length (split CHR ''.'' sv) < 2"
  then have "assertStrapiVersionIntegrity Minor (Some sv) (Some dv) \<noteq> Inr ()"
    using version_check_passes [of sv dv Minor] by simp
  then show "assertStrapiVersionIntegrity Minor (Some sv) (Some dv) =
        Inl (Error (mismatch_message Minor sv dv))"
    using version_check_outcomes [of Minor sv dv] by simp
next
  assume a: "sv \<noteq> [] \<and> dv \<noteq> [] \<and> length (split CHR ''.'' sv) < 3"
  then have "assertStrapiVersionIntegrity Patch (Some sv) (Some dv) \<noteq> Inr ()"
    using version_check_passes [of sv dv Patch] by simp
  then show "assertStrapiVersionIntegrity Patch (Some sv) (Some dv) =
        Inl (Error (mismatch_message Patch sv dv))"
    using version_check_outcomes [of Patch sv dv] by simp
next
  assume "v \<noteq> []"
  then show "assertStrapiVersionIntegrity Ignore (Some v) (Some v) = Inr ()"
    using version_check_passes [of v v Ignore] by simp
next
  assume "v \<noteq> []"
  then show "assertStrapiVersionIntegrity Exact (Some v) (Some v) = Inr ()"
    using version_check_passes [of v v Exact] by simp
next
  assume "v \<noteq> []"
  then show "assertStrapiVersionIntegrity Major (Some v) (Some v) = Inr ()"
    using version_check_passes [of v v Major] by simp
qed

theorem version_check_on_short_and_identical_versions_witness:
  "assertStrapiVersionIntegrity Minor (Some ''1'') (Some ''1'') =
     Inl (Error (mismatch_message Minor ''1'' ''1'')) \<and>
   assertStrapiVersionIntegrity Patch (Some ''1.2'') (Some ''1.2'') =
     Inl (Error (mismatch_message Patch ''1.2'' ''1.2'')) \<and>
   assertStrapiVersionIntegrity Ignore (Some ''1'') (Some ''1'') = Inr () \<and>
   assertStrapiVersionIntegrity Exact (Some ''1'') (Some ''1'') = Inr () \<and>
   assertStrapiVersionIntegrity Major (Some ''1'') (Some ''1'') = Inr ()"
  using version_check_on_short_and_identical_versions [of "''1''" "''1''" "''1''"]
    version_check_on_short_and_identical_versions [of "''1.2''" "''1.2''" "''1''"]
  by simp

text \<open>Claim C10 as stated names \<open>ignore\<close> and \<open>exact\<close> as the only strategies that are
  sure to pass on identical versions; \<open>major\<close> is a third.\<close>

theorem only_ignore_and_exact_counterexample:
  "\<not> (\<forall>strat. (\<forall>v. v \<noteq> [] \<longrightarrow> assertStrapiVersionIntegrity strat (Some v) (Some v) = Inr ())
        \<longrightarrow> strat = Ignore \<or> strat = Exact)"
proof
  assume a: "\<forall>strat. (\<forall>v. v \<noteq> [] \<longrightarrow> assertStrapiVersionIntegrity strat (Some v) (Some v) = Inr ())
        \<longrightarrow> strat = Ignore \<or> strat = Exact"
  have "\<forall>v. v \<noteq> [] \<longrightarrow> assertStrapiVersionIntegrity Major (Some v) (Some v) = Inr ()"
    using version_check_passes [of _ _ Major] by simp
  with a have "Major = Ignore \<or> Major = Exact" by blast
  then show False by simp
qed

end
